theory Spec2Isabelle
  imports Complex_Main
begin

section \<open>The scene editor's InstancesRenderer\<close>

text \<open>
  The class \<^verbatim>\<open>InstancesRenderer\<close> keeps one \<^verbatim>\<open>LayerRenderer\<close> per layer name in the
  plain object \<^verbatim>\<open>layersRenderers\<close>, keeps the drawables of these renderers as the
  children of its own pixi container, and exposes a measurer facade.  The embedding
  below passes the mutable state explicitly: the object \<^verbatim>\<open>layersRenderers\<close>, a store
  of \<^verbatim>\<open>LayerRenderer\<close> objects addressed by reference, the children array of the root
  container, and the sequence of calls made to the collaborators.
\<close>

subsection \<open>Data\<close>

text \<open>
  A layer object of the layout: its name and the identity of the object.  Two layer
  objects with the same name and different \<open>layerRef\<close> are different objects.
\<close>

record gdLayer =
  getName :: string
  layerRef :: nat

text \<open>
  The fields of a \<^verbatim>\<open>LayerRenderer\<close> that \<^verbatim>\<open>InstancesRenderer\<close> reads and writes:
  \<^verbatim>\<open>layer\<close>, \<^verbatim>\<open>wasUsed\<close>, and \<^verbatim>\<open>zOrder\<close> of the pixi container that
  \<^verbatim>\<open>getPixiContainer()\<close> returns (\<open>None\<close> is JavaScript's \<^verbatim>\<open>undefined\<close>).
  A drawable is identified with the reference of the layer renderer owning it.
\<close>

record layer_renderer =
  layer :: gdLayer
  wasUsed :: bool
  zOrder :: "nat option"

text \<open>
  The class \<^verbatim>\<open>LayerRenderer\<close> (\<^verbatim>\<open>./LayerRenderer\<close>) and the pixi container are imported
  and not part of these sources.  Every call that \<^verbatim>\<open>InstancesRenderer\<close> makes to them is
  recorded, in the order in which the calls are made: the constructor, the render step,
  the cache-reset hook and the teardown of a layer renderer, and \<^verbatim>\<open>addChild\<close>,
  \<^verbatim>\<open>removeChild\<close> and \<^verbatim>\<open>destroy\<close> of the root container.  What a callee does inside
  is not part of the model; a call returns to its caller.
\<close>

datatype call =
    NewLayerRenderer nat gdLayer
  | AddChild nat
  | RemoveChild nat
  | LayerRender nat
  | LayerResetInstanceRenderersFor nat string
  | LayerDelete nat
  | ContainerDestroy

text \<open>
  The state of one \<^verbatim>\<open>InstancesRenderer\<close>.  \<open>layersRenderers\<close> lists the own
  properties of the object \<^verbatim>\<open>this.layersRenderers\<close> in the order of their enumeration,
  each with the reference it holds; \<open>heap\<close> maps a reference to the \<^verbatim>\<open>LayerRenderer\<close> object;
  \<open>nextRef\<close> is the reference the next \<^verbatim>\<open>new LayerRenderer\<close> gets;
  \<open>pixiChildren\<close> is \<^verbatim>\<open>this.pixiContainer.children\<close>, the drawables by the reference of
  their layer renderer, as this class makes it: \<^verbatim>\<open>addChild\<close> appends a child,
  \<^verbatim>\<open>removeChild\<close> takes it out, \<^verbatim>\<open>_updatePixiObjectsZOrder\<close> sorts the array, and
  \<^verbatim>\<open>destroy\<close> empties it.
  \<open>prototypeAdded\<close> names the properties that assignments of this class have created
  on \<^verbatim>\<open>Object.prototype\<close>, in the order of their creation (no other code is taken to
  change \<^verbatim>\<open>Object.prototype\<close>).  \<open>calls\<close> is the record of the calls made so far.
\<close>

record instances_renderer =
  layersRenderers :: "(string \<times> nat) list"
  heap :: "nat \<Rightarrow> layer_renderer"
  nextRef :: nat
  pixiChildren :: "nat list"
  prototypeAdded :: "string list"
  calls :: "call list"

datatype js_error = TypeError

datatype completion = Normal | Throw js_error

subsection \<open>Property reads on a plain object\<close>

text \<open>
  \<^verbatim>\<open>this.layersRenderers = {}\<close> is an ordinary object, whose prototype is
  \<^verbatim>\<open>Object.prototype\<close>.  A read \<^verbatim>\<open>this.layersRenderers[layerName]\<close> yields the own
  property when there is one, otherwise the property of that name inherited from
  \<^verbatim>\<open>Object.prototype\<close>, otherwise \<^verbatim>\<open>undefined\<close>.  \<open>object_prototype_keys\<close> are the
  properties that \<^verbatim>\<open>Object.prototype\<close> has by the language: functions, and for
  \<^verbatim>\<open>__proto__\<close> the prototype object itself; they are not enumerable.  The properties
  that this class adds (see \<open>foreign_writes\<close> below) are \<^verbatim>\<open>layer\<close>, a layer object, and
  \<^verbatim>\<open>wasUsed\<close>, the value \<^verbatim>\<open>true\<close>; they are enumerable.  All these inherited values
  are truthy and have none of the methods of a \<^verbatim>\<open>LayerRenderer\<close>.  The first argument
  of \<open>js_get\<close> lists the names of the properties of \<^verbatim>\<open>Object.prototype\<close> at the time
  of the read.
\<close>

definition object_prototype_keys :: "string list" where
  "object_prototype_keys =
     [''constructor'', ''hasOwnProperty'', ''isPrototypeOf'', ''propertyIsEnumerable'',
      ''toLocaleString'', ''toString'', ''valueOf'', ''__proto__'',
      ''__defineGetter__'', ''__defineSetter__'', ''__lookupGetter__'', ''__lookupSetter__'']"

datatype property_value = Undefined | Renderer nat | Inherited

definition js_get :: "string list \<Rightarrow> (string \<times> nat) list \<Rightarrow> string \<Rightarrow> property_value" where
  "js_get proto obj k =
     (case map_of obj k of
        Some r \<Rightarrow> Renderer r
      | None \<Rightarrow> if k \<in> set proto then Inherited else Undefined)"

definition hasOwnProperty :: "(string \<times> nat) list \<Rightarrow> string \<Rightarrow> bool" where
  "hasOwnProperty obj k = (map_of obj k \<noteq> None)"

text \<open>
  The own properties of an ordinary object are enumerated with the array indices first
  (the decimal numerals of the integers from 0 up to \<open>2\<^sup>3\<^sup>2 - 2\<close>, without leading
  zero), in ascending numeric order, and the other names after them in the order of
  their creation.  The list \<open>obj\<close> keeps the own properties in this order.
\<close>

definition array_index_value :: "string \<Rightarrow> nat" where
  "array_index_value k = foldl (\<lambda>n c. 10 * n + (of_char c - 48)) 0 k"

definition is_array_index :: "string \<Rightarrow> bool" where
  "is_array_index k \<longleftrightarrow>
     k \<noteq> [] \<and> list_all (\<lambda>c. c \<in> set ''0123456789'') k \<and>
     (k = ''0'' \<or> hd k \<noteq> CHR ''0'') \<and> array_index_value k < 4294967295"

text \<open>
  The assignment \<^verbatim>\<open>obj[k] = r\<close>: an own property \<open>k\<close> gets the new value; otherwise
  the property is created, at its place in the order of enumeration.  (\<^verbatim>\<open>render\<close>
  assigns only after the read of \<open>k\<close> gave \<^verbatim>\<open>undefined\<close>, so \<open>k\<close> is then neither an own
  nor an inherited property.)
\<close>

definition js_set :: "(string \<times> nat) list \<Rightarrow> string \<Rightarrow> nat \<Rightarrow> (string \<times> nat) list" where
  "js_set obj k r =
     (if hasOwnProperty obj k then map (\<lambda>(k', v). if k' = k then (k', r) else (k', v)) obj
      else if is_array_index k then
        takeWhile (\<lambda>(k', _). is_array_index k' \<and> array_index_value k' < array_index_value k) obj
        @ (k, r) #
        dropWhile (\<lambda>(k', _). is_array_index k' \<and> array_index_value k' < array_index_value k) obj
      else obj @ [(k, r)])"

text \<open>The keys a \<^verbatim>\<open>for (let i in obj)\<close> loop visits, in order: the own properties, then
  the enumerable properties of \<^verbatim>\<open>Object.prototype\<close> (the list \<open>added\<close>) that no own
  property hides, each name once.\<close>

definition for_in_keys :: "string list \<Rightarrow> (string \<times> nat) list \<Rightarrow> string list" where
  "for_in_keys added obj = map fst obj @ filter (\<lambda>k. \<not> hasOwnProperty obj k) (remdups added)"

text \<open>The names of the properties of \<^verbatim>\<open>Object.prototype\<close> in the state \<open>s\<close>.\<close>

definition prototype_keys :: "instances_renderer \<Rightarrow> string list" where
  "prototype_keys s = object_prototype_keys @ prototypeAdded s"

subsection \<open>The constructor\<close>

text \<open>A new \<^verbatim>\<open>InstancesRenderer\<close>, in a program where \<^verbatim>\<open>Object.prototype\<close> is as the
  language defines it.\<close>

definition blank_renderer :: layer_renderer where
  "blank_renderer = \<lparr>layer = \<lparr>getName = [], layerRef = 0\<rparr>, wasUsed = False, zOrder = None\<rparr>"

definition constructor :: instances_renderer where
  "constructor =
     \<lparr>layersRenderers = [], heap = (\<lambda>_. blank_renderer), nextRef = 0,
      pixiChildren = [], prototypeAdded = [], calls = []\<rparr>"

subsection \<open>render\<close>

text \<open>Lines 146 to 149: the statements run on the layer renderer found or created.\<close>

definition use_renderer :: "nat \<Rightarrow> nat \<Rightarrow> gdLayer \<Rightarrow> instances_renderer \<Rightarrow> instances_renderer" where
  "use_renderer r i l s =
     s\<lparr>heap := (heap s)(r := \<lparr>layer = l, wasUsed = True, zOrder = Some i\<rparr>),
       calls := calls s @ [LayerRender r]\<rparr>"

text \<open>Lines 124 to 140: \<^verbatim>\<open>new LayerRenderer\<close>, stored under the layer's name, and
  \<^verbatim>\<open>addChild\<close> of its drawable.\<close>

definition create_renderer :: "gdLayer \<Rightarrow> instances_renderer \<Rightarrow> instances_renderer" where
  "create_renderer l s =
     s\<lparr>layersRenderers := js_set (layersRenderers s) (getName l) (nextRef s),
       heap := (heap s)(nextRef s := \<lparr>layer = l, wasUsed = False, zOrder = None\<rparr>),
       nextRef := Suc (nextRef s),
       pixiChildren := pixiChildren s @ [nextRef s],
       calls := calls s @ [NewLayerRenderer (nextRef s) l, AddChild (nextRef s)]\<rparr>"

text \<open>
  Lines 146 and 147 when the read of the name \<open>k\<close> found an inherited value: the writes
  of \<^verbatim>\<open>layer\<close> and \<^verbatim>\<open>wasUsed\<close> go to that value.  For \<^verbatim>\<open>__proto__\<close> the value is
  \<^verbatim>\<open>Object.prototype\<close>, which gets the two properties, so that every object inherits
  them from then on.  The other inherited values are functions and a layer object,
  which take the writes and are on no prototype chain, and the value \<^verbatim>\<open>true\<close>, on which
  the first write throws.
\<close>

definition add_key :: "string \<Rightarrow> string list \<Rightarrow> string list" where
  "add_key k ks = (if k \<in> set ks then ks else ks @ [k])"

definition foreign_writes :: "string \<Rightarrow> instances_renderer \<Rightarrow> instances_renderer" where
  "foreign_writes k s =
     (if k = ''__proto__''
      then s\<lparr>prototypeAdded := add_key ''wasUsed'' (add_key ''layer'' (prototypeAdded s))\<rparr>
      else s)"

text \<open>
  One iteration of the loop of \<^verbatim>\<open>render\<close>, for the layer \<open>l\<close> at index \<open>i\<close>.  When the
  read finds an inherited property, the test \<^verbatim>\<open>!layerRenderer\<close> is false, the writes
  of \<^verbatim>\<open>layer\<close> and \<^verbatim>\<open>wasUsed\<close> go to that foreign value, and at the latest
  \<^verbatim>\<open>layerRenderer.getPixiContainer()\<close>, a call of \<^verbatim>\<open>undefined\<close>, throws a
  \<^verbatim>\<open>TypeError\<close>.
\<close>

definition render_layer :: "nat \<Rightarrow> gdLayer \<Rightarrow> instances_renderer \<Rightarrow> completion \<times> instances_renderer" where
  "render_layer i l s =
     (case js_get (prototype_keys s) (layersRenderers s) (getName l) of
        Undefined \<Rightarrow> (Normal, use_renderer (nextRef s) i l (create_renderer l s))
      | Renderer r \<Rightarrow> (Normal, use_renderer r i l s)
      | Inherited \<Rightarrow> (Throw TypeError, foreign_writes (getName l) s))"

text \<open>The loop, from index \<open>i\<close> on; the list holds the layers
  \<^verbatim>\<open>layout.getLayerAt(i)\<close>, \<^verbatim>\<open>layout.getLayerAt(i + 1)\<close>, and so on.  An exception ends it.\<close>

fun render_layers :: "nat \<Rightarrow> gdLayer list \<Rightarrow> instances_renderer \<Rightarrow> completion \<times> instances_renderer" where
  "render_layers i [] s = (Normal, s)"
| "render_layers i (l # ls) s =
     (case render_layer i l s of
        (Normal, s') \<Rightarrow> render_layers (Suc i) ls s'
      | (Throw e, s') \<Rightarrow> (Throw e, s'))"

text \<open>\<^verbatim>\<open>a.zOrder || 0\<close>\<close>

definition zOrder_or_0 :: "nat option \<Rightarrow> nat" where
  "zOrder_or_0 z = (case z of None \<Rightarrow> 0 | Some v \<Rightarrow> v)"

text \<open>
  \<^verbatim>\<open>_updatePixiObjectsZOrder\<close>: the children array is sorted in place by
  \<^verbatim>\<open>Array.prototype.sort\<close>, which is stable; the comparator orders by
  \<^verbatim>\<open>zOrder || 0\<close> and stores that value back into each child it is called with
  (every child of an array of two or more).
\<close>

definition updatePixiObjectsZOrder :: "instances_renderer \<Rightarrow> instances_renderer" where
  "updatePixiObjectsZOrder s =
     s\<lparr>pixiChildren := sort_key (\<lambda>c. zOrder_or_0 (zOrder (heap s c))) (pixiChildren s),
       heap := (\<lambda>r. if r \<in> set (pixiChildren s) \<and> 2 \<le> length (pixiChildren s)
                     then (heap s r)\<lparr>zOrder := Some (zOrder_or_0 (zOrder (heap s r)))\<rparr>
                     else heap s r)\<rparr>"

text \<open>The body of the loop of \<^verbatim>\<open>_cleanUnusedLayerRenderers\<close> for the key \<open>i\<close>.
  \<^verbatim>\<open>removeChild\<close> takes the first occurrence of the child out of the array.\<close>

definition clean_key :: "string \<Rightarrow> instances_renderer \<Rightarrow> instances_renderer" where
  "clean_key i s =
     (if hasOwnProperty (layersRenderers s) i then
        (case js_get (prototype_keys s) (layersRenderers s) i of
           Renderer r \<Rightarrow>
             if \<not> wasUsed (heap s r) then
               s\<lparr>pixiChildren := remove1 r (pixiChildren s),
                 calls := calls s @ [RemoveChild r, LayerDelete r],
                 layersRenderers := filter (\<lambda>(k, _). k \<noteq> i) (layersRenderers s)\<rparr>
             else s\<lparr>heap := (heap s)(r := (heap s r)\<lparr>wasUsed := False\<rparr>)\<rparr>
         | _ \<Rightarrow> s)
      else s)"

fun clean_keys :: "string list \<Rightarrow> instances_renderer \<Rightarrow> instances_renderer" where
  "clean_keys [] s = s"
| "clean_keys (i # is) s = clean_keys is (clean_key i s)"

definition cleanUnusedLayerRenderers :: "instances_renderer \<Rightarrow> instances_renderer" where
  "cleanUnusedLayerRenderers s =
     clean_keys (for_in_keys (prototypeAdded s) (layersRenderers s)) s"

text \<open>\<^verbatim>\<open>render()\<close>, given the layers the layout reports, in order.\<close>

definition render :: "gdLayer list \<Rightarrow> instances_renderer \<Rightarrow> completion \<times> instances_renderer" where
  "render ls s =
     (case render_layers 0 ls s of
        (Normal, s') \<Rightarrow> (Normal, cleanUnusedLayerRenderers (updatePixiObjectsZOrder s'))
      | (Throw e, s') \<Rightarrow> (Throw e, s'))"

text \<open>A sequence of \<^verbatim>\<open>render()\<close> calls, one per reported layer list, up to the first
  exception.\<close>

fun renders :: "gdLayer list list \<Rightarrow> instances_renderer \<Rightarrow> completion \<times> instances_renderer" where
  "renders [] s = (Normal, s)"
| "renders (ls # lss) s =
     (case render ls s of
        (Normal, s') \<Rightarrow> renders lss s'
      | (Throw e, s') \<Rightarrow> (Throw e, s'))"

subsection \<open>resetInstanceRenderersFor and delete\<close>

definition reset_key :: "string \<Rightarrow> string \<Rightarrow> instances_renderer \<Rightarrow> instances_renderer" where
  "reset_key objectName i s =
     (if hasOwnProperty (layersRenderers s) i then
        (case js_get (prototype_keys s) (layersRenderers s) i of
           Renderer r \<Rightarrow> s\<lparr>calls := calls s @ [LayerResetInstanceRenderersFor r objectName]\<rparr>
         | _ \<Rightarrow> s)
      else s)"

fun reset_keys :: "string \<Rightarrow> string list \<Rightarrow> instances_renderer \<Rightarrow> instances_renderer" where
  "reset_keys objectName [] s = s"
| "reset_keys objectName (i # is) s = reset_keys objectName is (reset_key objectName i s)"

definition resetInstanceRenderersFor :: "string \<Rightarrow> instances_renderer \<Rightarrow> instances_renderer" where
  "resetInstanceRenderersFor objectName s =
     reset_keys objectName (for_in_keys (prototypeAdded s) (layersRenderers s)) s"

definition delete_key :: "string \<Rightarrow> instances_renderer \<Rightarrow> instances_renderer" where
  "delete_key i s =
     (if hasOwnProperty (layersRenderers s) i then
        (case js_get (prototype_keys s) (layersRenderers s) i of
           Renderer r \<Rightarrow> s\<lparr>calls := calls s @ [LayerDelete r]\<rparr>
         | _ \<Rightarrow> s)
      else s)"

fun delete_keys :: "string list \<Rightarrow> instances_renderer \<Rightarrow> instances_renderer" where
  "delete_keys [] s = s"
| "delete_keys (i # is) s = delete_keys is (delete_key i s)"

text \<open>\<^verbatim>\<open>delete()\<close>.  The \<^verbatim>\<open>destroy()\<close> of a pixi container also takes all its children
  out of it.\<close>

definition delete :: "instances_renderer \<Rightarrow> instances_renderer" where
  "delete s =
     (let s' = delete_keys (for_in_keys (prototypeAdded s) (layersRenderers s)) s
      in s'\<lparr>calls := calls s' @ [ContainerDestroy], pixiChildren := []\<rparr>)"

subsection \<open>The instance measurer\<close>

record gdInitialInstance =
  getLayer :: string
  getX :: real
  getY :: real
  hasCustomSize :: bool
  getCustomWidth :: real
  getCustomHeight :: real

text \<open>The geometry queries of the \<^verbatim>\<open>LayerRenderer\<close> class, which this module calls
  and does not define: one function per query, of the layer renderer and the instance.\<close>

record layer_geometry =
  lrInstanceLeft :: "nat \<Rightarrow> gdInitialInstance \<Rightarrow> real"
  lrInstanceTop :: "nat \<Rightarrow> gdInitialInstance \<Rightarrow> real"
  lrInstanceWidth :: "nat \<Rightarrow> gdInitialInstance \<Rightarrow> real"
  lrInstanceHeight :: "nat \<Rightarrow> gdInitialInstance \<Rightarrow> real"

text \<open>The object \<^verbatim>\<open>{x, y, width, height}\<close> that \<^verbatim>\<open>getInstanceRect\<close> returns.\<close>

record rect =
  rect_x :: real
  rect_y :: real
  rect_width :: real
  rect_height :: real

definition getInstanceLeft :: "layer_geometry \<Rightarrow> instances_renderer \<Rightarrow> gdInitialInstance \<Rightarrow> js_error + real" where
  "getInstanceLeft g s inst =
     (case js_get (prototype_keys s) (layersRenderers s) (getLayer inst) of
        Undefined \<Rightarrow> Inr (getX inst)
      | Renderer r \<Rightarrow> Inr (lrInstanceLeft g r inst)
      | Inherited \<Rightarrow> Inl TypeError)"

definition getInstanceTop :: "layer_geometry \<Rightarrow> instances_renderer \<Rightarrow> gdInitialInstance \<Rightarrow> js_error + real" where
  "getInstanceTop g s inst =
     (case js_get (prototype_keys s) (layersRenderers s) (getLayer inst) of
        Undefined \<Rightarrow> Inr (getY inst)
      | Renderer r \<Rightarrow> Inr (lrInstanceTop g r inst)
      | Inherited \<Rightarrow> Inl TypeError)"

definition getInstanceWidth :: "layer_geometry \<Rightarrow> instances_renderer \<Rightarrow> gdInitialInstance \<Rightarrow> js_error + real" where
  "getInstanceWidth g s inst =
     (if hasCustomSize inst then Inr (getCustomWidth inst)
      else case js_get (prototype_keys s) (layersRenderers s) (getLayer inst) of
        Undefined \<Rightarrow> Inr 0
      | Renderer r \<Rightarrow> Inr (lrInstanceWidth g r inst)
      | Inherited \<Rightarrow> Inl TypeError)"

definition getInstanceHeight :: "layer_geometry \<Rightarrow> instances_renderer \<Rightarrow> gdInitialInstance \<Rightarrow> js_error + real" where
  "getInstanceHeight g s inst =
     (if hasCustomSize inst then Inr (getCustomHeight inst)
      else case js_get (prototype_keys s) (layersRenderers s) (getLayer inst) of
        Undefined \<Rightarrow> Inr 0
      | Renderer r \<Rightarrow> Inr (lrInstanceHeight g r inst)
      | Inherited \<Rightarrow> Inl TypeError)"

text \<open>The object literal evaluates its four fields in order; the first exception ends it.\<close>

definition getInstanceRect :: "layer_geometry \<Rightarrow> instances_renderer \<Rightarrow> gdInitialInstance \<Rightarrow> js_error + rect" where
  "getInstanceRect g s inst =
     (case getInstanceLeft g s inst of
        Inl e \<Rightarrow> Inl e
      | Inr l \<Rightarrow>
     (case getInstanceTop g s inst of
        Inl e \<Rightarrow> Inl e
      | Inr t \<Rightarrow>
     (case getInstanceWidth g s inst of
        Inl e \<Rightarrow> Inl e
      | Inr w \<Rightarrow>
     (case getInstanceHeight g s inst of
        Inl e \<Rightarrow> Inl e
      | Inr h \<Rightarrow> Inr \<lparr>rect_x = l, rect_y = t, rect_width = w, rect_height = h\<rparr>))))"

subsection \<open>Auxiliary notions for the statements\<close>

text \<open>The calls made on the way from the state \<open>s\<close> to the later state \<open>s'\<close>.\<close>

definition calls_since :: "instances_renderer \<Rightarrow> instances_renderer \<Rightarrow> call list" where
  "calls_since s s' = drop (length (calls s)) (calls s')"

text \<open>The layers of the example scenario, and the state after one \<^verbatim>\<open>render()\<close> of the
  layout \<^verbatim>\<open>["Background", "Main"]\<close> on a new \<^verbatim>\<open>InstancesRenderer\<close>.\<close>

definition background_layer :: gdLayer where
  "background_layer = \<lparr>getName = ''Background'', layerRef = 1\<rparr>"

definition main_layer :: gdLayer where
  "main_layer = \<lparr>getName = ''Main'', layerRef = 2\<rparr>"

definition two_layer_scene :: instances_renderer where
  "two_layer_scene = snd (render [background_layer, main_layer] constructor)"

text \<open>
  The bookkeeping invariant: \<open>layersRenderers\<close> has one entry per key, no layer
  renderer is held under two keys, every reference held was handed out by an earlier
  \<^verbatim>\<open>new LayerRenderer\<close>, and the children of the root container are the drawables of the
  entries, each once.
\<close>

definition well_formed :: "instances_renderer \<Rightarrow> bool" where
  "well_formed s \<longleftrightarrow>
     distinct (map fst (layersRenderers s)) \<and> distinct (map snd (layersRenderers s)) \<and>
     (\<forall>r \<in> set (map snd (layersRenderers s)). r < nextRef s) \<and>
     distinct (pixiChildren s) \<and> set (pixiChildren s) = set (map snd (layersRenderers s))"

text \<open>No entry is marked as used, and no pass has written to \<^verbatim>\<open>Object.prototype\<close>: the
  state between two passes when every pass so far has returned.\<close>

definition idle :: "instances_renderer \<Rightarrow> bool" where
  "idle s \<longleftrightarrow>
     (\<forall>r \<in> set (map snd (layersRenderers s)). \<not> wasUsed (heap s r)) \<and> prototypeAdded s = []"

text \<open>No layer of the list bears the name of a property that \<^verbatim>\<open>Object.prototype\<close> has by
  the language.\<close>

definition ordinary_names :: "gdLayer list \<Rightarrow> bool" where
  "ordinary_names ls \<longleftrightarrow> (\<forall>l \<in> set ls. getName l \<notin> set object_prototype_keys)"

text \<open>One iteration of the loop of \<^verbatim>\<open>render\<close>, and the loop, when no read finds an
  inherited property.\<close>

definition visit :: "nat \<Rightarrow> gdLayer \<Rightarrow> instances_renderer \<Rightarrow> instances_renderer" where
  "visit i l s =
     (case map_of (layersRenderers s) (getName l) of
        Some r \<Rightarrow> use_renderer r i l s
      | None \<Rightarrow> use_renderer (nextRef s) i l (create_renderer l s))"

fun visits :: "nat \<Rightarrow> gdLayer list \<Rightarrow> instances_renderer \<Rightarrow> instances_renderer" where
  "visits i [] s = s"
| "visits i (l # ls) s = visits (Suc i) ls (visit i l s)"

text \<open>
  Calls as the loop of \<^verbatim>\<open>render\<close> makes them from a state whose next reference is \<open>n\<close>:
  render steps, and constructions and \<^verbatim>\<open>addChild\<close> for references from \<open>n\<close> on; no
  teardown and no \<^verbatim>\<open>removeChild\<close>.
\<close>

definition quiet_calls :: "nat \<Rightarrow> call list \<Rightarrow> bool" where
  "quiet_calls n cs \<longleftrightarrow>
     (\<forall>c \<in> set cs. case c of
        NewLayerRenderer r l \<Rightarrow> n \<le> r
      | AddChild r \<Rightarrow> n \<le> r
      | LayerRender r \<Rightarrow> True
      | _ \<Rightarrow> False)"

text \<open>
  For the loop of \<^verbatim>\<open>_cleanUnusedLayerRenderers\<close> over the keys \<open>ks\<close>: the calls made for
  one key, the layer renderers it removes, and the layer renderers it visits.
\<close>

definition sweep_calls :: "instances_renderer \<Rightarrow> string \<Rightarrow> call list" where
  "sweep_calls s k =
     (case map_of (layersRenderers s) k of
        Some r \<Rightarrow> if wasUsed (heap s r) then [] else [RemoveChild r, LayerDelete r]
      | None \<Rightarrow> [])"

definition swept :: "instances_renderer \<Rightarrow> string list \<Rightarrow> nat \<Rightarrow> bool" where
  "swept s ks r \<longleftrightarrow> (\<exists>k \<in> set ks. map_of (layersRenderers s) k = Some r \<and> \<not> wasUsed (heap s r))"

definition visited :: "instances_renderer \<Rightarrow> string list \<Rightarrow> nat \<Rightarrow> bool" where
  "visited s ks r \<longleftrightarrow> (\<exists>k \<in> set ks. map_of (layersRenderers s) k = Some r)"


section \<open>Evaluation on concrete layouts\<close>

lemmas eval_defs = render_def render_layer_def js_get_def object_prototype_keys_def
  constructor_def use_renderer_def create_renderer_def updatePixiObjectsZOrder_def
  cleanUnusedLayerRenderers_def clean_key_def for_in_keys_def hasOwnProperty_def
  js_set_def is_array_index_def array_index_value_def prototype_keys_def
  foreign_writes_def add_key_def
  zOrder_or_0_def background_layer_def main_layer_def

lemma two_layer_scene_layersRenderers:
  "layersRenderers two_layer_scene = [(''Background'', 0), (''Main'', 1)]"
  by (simp add: two_layer_scene_def eval_defs)

lemma two_layer_scene_pixiChildren: "pixiChildren two_layer_scene = [0, 1]"
  by (simp add: two_layer_scene_def eval_defs)

lemma two_layer_scene_completes:
  "fst (render [background_layer, main_layer] constructor) = Normal"
  by (simp add: eval_defs)

section \<open>The loops over the own properties\<close>

lemma map_of_own_entry:
  "distinct (map fst obj) \<Longrightarrow> kv \<in> set obj \<Longrightarrow> map_of obj (fst kv) = Some (snd kv)"
  by (cases kv) simp

lemma concat_own_calls:
  assumes "distinct (map fst obj)"
  shows "concat (map (\<lambda>k. case map_of obj k of Some r \<Rightarrow> [f r] | None \<Rightarrow> []) (map fst obj))
         = map f (map snd obj)"
proof -
  have "concat (map (\<lambda>kv. case map_of obj (fst kv) of Some r \<Rightarrow> [f r] | None \<Rightarrow> []) obj)
        = concat (map (\<lambda>kv. [f (snd kv)]) obj)"
    by (rule arg_cong [where f = concat], rule map_cong [OF refl])
       (simp add: map_of_own_entry [OF assms])
  also have "\<dots> = map (\<lambda>kv. f (snd kv)) obj"
    by (induction obj) simp_all
  finally show ?thesis by (simp add: comp_def)
qed

lemma concat_for_in_calls:
  assumes "distinct (map fst obj)"
  shows "concat (map (\<lambda>k. case map_of obj k of Some r \<Rightarrow> [f r] | None \<Rightarrow> [])
                     (for_in_keys added obj))
         = map f (map snd obj)"
proof -
  have "concat (map (\<lambda>k. case map_of obj k of Some r \<Rightarrow> [f r] | None \<Rightarrow> []) ks) = []"
    if "\<forall>k \<in> set ks. map_of obj k = None" for ks
    using that by (induction ks) simp_all
  then have "concat (map (\<lambda>k. case map_of obj k of Some r \<Rightarrow> [f r] | None \<Rightarrow> [])
                     (filter (\<lambda>k. \<not> hasOwnProperty obj k) (remdups added))) = []"
    by (simp add: hasOwnProperty_def)
  then show ?thesis
    unfolding for_in_keys_def map_append concat_append concat_own_calls [OF assms]
    by simp
qed

lemma count_list_distinct:
  "distinct xs \<Longrightarrow> count_list xs a = (if a \<in> set xs then 1 else 0)"
  by (induction xs) auto

lemma calls_since_append [simp]: "calls_since s (s'\<lparr>calls := calls s @ cs\<rparr>) = cs"
  by (simp add: calls_since_def)

subsection \<open>delete\<close>

lemma delete_key_layersRenderers [simp]: "layersRenderers (delete_key i s) = layersRenderers s"
  by (simp add: delete_key_def js_get_def split: option.splits)

lemma delete_keys_closed:
  "delete_keys ks s =
     s\<lparr>calls := calls s @ concat (map (\<lambda>k. case map_of (layersRenderers s) k of
                                              Some r \<Rightarrow> [LayerDelete r] | None \<Rightarrow> []) ks)\<rparr>"
proof (induction ks arbitrary: s)
  case Nil
  then show ?case by simp
next
  case (Cons k ks)
  show ?case
    by (simp add: Cons.IH)
       (simp add: delete_key_def hasOwnProperty_def js_get_def split: option.splits)
qed

lemma delete_closed:
  "distinct (map fst (layersRenderers s)) \<Longrightarrow>
   delete s = s\<lparr>calls := calls s @ map LayerDelete (map snd (layersRenderers s)) @ [ContainerDestroy],
               pixiChildren := []\<rparr>"
  using concat_for_in_calls [of "layersRenderers s" LayerDelete "prototypeAdded s"]
  by (simp add: delete_def Let_def delete_keys_closed)

subsection \<open>resetInstanceRenderersFor\<close>

lemma reset_key_layersRenderers [simp]:
  "layersRenderers (reset_key n i s) = layersRenderers s"
  by (simp add: reset_key_def js_get_def split: option.splits)

lemma reset_keys_closed:
  "reset_keys n ks s =
     s\<lparr>calls := calls s @ concat (map (\<lambda>k. case map_of (layersRenderers s) k of
                 Some r \<Rightarrow> [LayerResetInstanceRenderersFor r n] | None \<Rightarrow> []) ks)\<rparr>"
proof (induction ks arbitrary: s)
  case Nil
  then show ?case by simp
next
  case (Cons k ks)
  show ?case
    by (simp add: Cons.IH)
       (simp add: reset_key_def hasOwnProperty_def js_get_def split: option.splits)
qed

lemma reset_closed:
  "distinct (map fst (layersRenderers s)) \<Longrightarrow>
   resetInstanceRenderersFor n s =
     s\<lparr>calls := calls s @
          map (\<lambda>r. LayerResetInstanceRenderersFor r n) (map snd (layersRenderers s))\<rparr>"
  using concat_for_in_calls [of "layersRenderers s" "\<lambda>r. LayerResetInstanceRenderersFor r n"
          "prototypeAdded s"]
  by (simp add: resetInstanceRenderersFor_def reset_keys_closed)

section \<open>Teardown and cache reset\<close>

text \<open>
  Claim C7.  One call of \<^verbatim>\<open>delete()\<close> calls the teardown of the layer renderer of every
  entry of \<open>layersRenderers\<close>, in the order of enumeration, and then \<^verbatim>\<open>destroy\<close> of the
  root container: these are all the calls it makes.  Each layer renderer of the mapping
  is torn down exactly once and the container is destroyed exactly once, and the calls
  are the same whatever the fields (among them \<^verbatim>\<open>wasUsed\<close>) of the layer renderers hold.
  The two hypotheses say that \<open>layersRenderers\<close> represents an object (one entry per
  key) and that no two keys hold the same layer renderer; \<open>well_formed_render\<close>
  below shows that \<^verbatim>\<open>render()\<close> keeps both.
\<close>

theorem delete_tears_down_each_entry_once:
  assumes "distinct (map fst (layersRenderers s))"
    and "distinct (map snd (layersRenderers s))"
  shows "calls (delete s) =
           calls s @ map LayerDelete (map snd (layersRenderers s)) @ [ContainerDestroy]
       \<and> (\<forall>r \<in> set (map snd (layersRenderers s)).
             count_list (calls_since s (delete s)) (LayerDelete r) = 1)
       \<and> count_list (calls_since s (delete s)) ContainerDestroy = 1
       \<and> calls_since (s\<lparr>heap := h\<rparr>) (delete (s\<lparr>heap := h\<rparr>)) = calls_since s (delete s)"
proof -
  let ?rs = "map snd (layersRenderers s)"
  have eq: "calls (delete s) = calls s @ map LayerDelete ?rs @ [ContainerDestroy]"
    by (simp add: delete_closed [OF assms(1)])
  have eqh: "calls (delete (s\<lparr>heap := h\<rparr>)) =
      calls s @ map LayerDelete ?rs @ [ContainerDestroy]"
    using delete_closed [of "s\<lparr>heap := h\<rparr>"] assms(1) by simp
  have since: "calls_since s (delete s) = map LayerDelete ?rs @ [ContainerDestroy]"
    by (simp add: eq calls_since_def)
  have dist: "distinct (map LayerDelete ?rs)"
    using assms(2) by (simp add: distinct_map inj_on_def)
  have once: "count_list (map LayerDelete ?rs) (LayerDelete r) = 1" if "r \<in> set ?rs" for r
    using that count_list_distinct [OF dist, of "LayerDelete r"] by auto
  have none: "count_list (map LayerDelete ?rs) ContainerDestroy = 0"
    using count_list_distinct [OF dist, of ContainerDestroy] by auto
  have sinceh: "calls_since (s\<lparr>heap := h\<rparr>) (delete (s\<lparr>heap := h\<rparr>)) = map LayerDelete ?rs @ [ContainerDestroy]"
    by (simp add: eqh calls_since_def)
  show ?thesis
    using once none by (simp add: eq since sinceh del: set_map)
qed

theorem delete_tears_down_each_entry_once_witness:
  "distinct (map fst (layersRenderers two_layer_scene))
   \<and> distinct (map snd (layersRenderers two_layer_scene))
   \<and> calls_since two_layer_scene (delete two_layer_scene)
       = [LayerDelete 0, LayerDelete 1, ContainerDestroy]
   \<and> count_list (calls_since two_layer_scene (delete two_layer_scene)) (LayerDelete 1) = 1"
proof -
  have k: "distinct (map fst (layersRenderers two_layer_scene))"
    by (simp add: two_layer_scene_layersRenderers)
  have v: "distinct (map snd (layersRenderers two_layer_scene))"
    by (simp add: two_layer_scene_layersRenderers)
  show ?thesis
    using delete_tears_down_each_entry_once [OF k v, of "heap two_layer_scene"]
    by (simp add: two_layer_scene_layersRenderers calls_since_def)
qed

text \<open>
  Claim C10.  \<^verbatim>\<open>delete()\<close> leaves the mapping as it is, with every entry it held, and
  makes no \<^verbatim>\<open>removeChild\<close> call: its calls are the teardowns and \<^verbatim>\<open>destroy\<close>.  A
  second \<^verbatim>\<open>delete()\<close> therefore makes the calls of the first once more, the teardown of
  every entry included.
\<close>

theorem delete_keeps_entries_and_repeats:
  assumes "distinct (map fst (layersRenderers s))"
  shows "layersRenderers (delete s) = layersRenderers s
       \<and> (\<forall>r. RemoveChild r \<notin> set (calls_since s (delete s)))
       \<and> calls_since s (delete s) =
           map LayerDelete (map snd (layersRenderers s)) @ [ContainerDestroy]
       \<and> calls_since (delete s) (delete (delete s)) =
           map LayerDelete (map snd (layersRenderers s)) @ [ContainerDestroy]"
proof -
  let ?cs = "map LayerDelete (map snd (layersRenderers s)) @ [ContainerDestroy]"
  have eq: "delete s = s\<lparr>calls := calls s @ ?cs, pixiChildren := []\<rparr>"
    by (rule delete_closed [OF assms])
  have d2: "distinct (map fst (layersRenderers (delete s)))"
    using assms by (simp add: eq)
  have eq2: "calls (delete (delete s)) = calls (delete s) @ ?cs"
    using delete_closed [OF d2] by (simp add: eq)
  have since2: "calls_since (delete s) (delete (delete s)) = ?cs"
    by (simp add: eq2 calls_since_def)
  have since1: "calls_since s (delete s) = ?cs"
    by (simp add: eq calls_since_def)
  have "RemoveChild r \<notin> set ?cs" for r
    by auto
  then show ?thesis
    by (simp only: since1 since2) (simp add: eq)
qed

theorem delete_keeps_entries_and_repeats_witness:
  "distinct (map fst (layersRenderers two_layer_scene))
   \<and> layersRenderers (delete two_layer_scene) = [(''Background'', 0), (''Main'', 1)]
   \<and> calls_since two_layer_scene (delete two_layer_scene)
       = [LayerDelete 0, LayerDelete 1, ContainerDestroy]
   \<and> calls_since (delete two_layer_scene) (delete (delete two_layer_scene))
       = [LayerDelete 0, LayerDelete 1, ContainerDestroy]"
proof -
  have k: "distinct (map fst (layersRenderers two_layer_scene))"
    by (simp add: two_layer_scene_layersRenderers)
  show ?thesis
    using delete_keeps_entries_and_repeats [OF k]
    by (simp add: two_layer_scene_layersRenderers)
qed

text \<open>
  Claim C8.  \<^verbatim>\<open>resetInstanceRenderersFor(objectName)\<close> calls the cache-reset hook of the
  layer renderer of every entry, once each and with the same \<open>objectName\<close>, and makes
  no other call and no write: the mapping, the fields \<^verbatim>\<open>layer\<close>, \<^verbatim>\<open>wasUsed\<close> and
  \<^verbatim>\<open>zOrder\<close> of the layer renderers and the children of the root container are the
  same before and after, for every \<open>objectName\<close>.  The function returns nothing: its
  result here is the state alone.
\<close>

theorem resetInstanceRenderersFor_forwards_and_frames:
  assumes "distinct (map fst (layersRenderers s))"
    and "distinct (map snd (layersRenderers s))"
  shows "calls (resetInstanceRenderersFor objectName s) =
           calls s @ map (\<lambda>r. LayerResetInstanceRenderersFor r objectName)
                         (map snd (layersRenderers s))
       \<and> (\<forall>r \<in> set (map snd (layersRenderers s)).
             count_list (calls_since s (resetInstanceRenderersFor objectName s))
               (LayerResetInstanceRenderersFor r objectName) = 1)
       \<and> layersRenderers (resetInstanceRenderersFor objectName s) = layersRenderers s
       \<and> heap (resetInstanceRenderersFor objectName s) = heap s
       \<and> pixiChildren (resetInstanceRenderersFor objectName s) = pixiChildren s
       \<and> nextRef (resetInstanceRenderersFor objectName s) = nextRef s"
proof -
  let ?f = "\<lambda>r. LayerResetInstanceRenderersFor r objectName"
  let ?rs = "map snd (layersRenderers s)"
  have eq: "resetInstanceRenderersFor objectName s = s\<lparr>calls := calls s @ map ?f ?rs\<rparr>"
    by (rule reset_closed [OF assms(1)])
  have dist: "distinct (map ?f ?rs)"
    using assms(2) by (simp add: distinct_map inj_on_def)
  have once: "count_list (map ?f ?rs) (?f r) = 1" if "r \<in> set ?rs" for r
    using that count_list_distinct [OF dist, of "?f r"] by auto
  have since: "calls_since s (resetInstanceRenderersFor objectName s) = map ?f ?rs"
    by (simp only: eq calls_since_append)
  show ?thesis
    using once by (simp only: since) (simp add: eq)
qed

theorem resetInstanceRenderersFor_forwards_and_frames_witness:
  "distinct (map fst (layersRenderers two_layer_scene))
   \<and> distinct (map snd (layersRenderers two_layer_scene))
   \<and> calls_since two_layer_scene (resetInstanceRenderersFor ''NoSuchObject'' two_layer_scene)
       = [LayerResetInstanceRenderersFor 0 ''NoSuchObject'',
          LayerResetInstanceRenderersFor 1 ''NoSuchObject'']
   \<and> layersRenderers (resetInstanceRenderersFor ''NoSuchObject'' two_layer_scene)
       = [(''Background'', 0), (''Main'', 1)]
   \<and> pixiChildren (resetInstanceRenderersFor ''NoSuchObject'' two_layer_scene) = [0, 1]"
proof -
  have k: "distinct (map fst (layersRenderers two_layer_scene))"
    by (simp add: two_layer_scene_layersRenderers)
  have v: "distinct (map snd (layersRenderers two_layer_scene))"
    by (simp add: two_layer_scene_layersRenderers)
  show ?thesis
    using resetInstanceRenderersFor_forwards_and_frames [OF k v, of "''NoSuchObject''"]
    by (simp add: two_layer_scene_layersRenderers two_layer_scene_pixiChildren calls_since_def)
qed

section \<open>The measurer\<close>

text \<open>
  For an instance whose layer name is not the name of a property of
  \<^verbatim>\<open>Object.prototype\<close>, the four queries return: without an entry for the layer, the
  stored position, and the custom size or \<open>0\<close>; with an entry, what the layer renderer
  answers, the custom size still coming first.
\<close>

lemma measurer_fallback:
  assumes "getLayer inst \<notin> set (prototype_keys s)"
    and "map_of (layersRenderers s) (getLayer inst) = None"
  shows "getInstanceLeft g s inst = Inr (getX inst)"
    and "getInstanceTop g s inst = Inr (getY inst)"
    and "getInstanceWidth g s inst = Inr (if hasCustomSize inst then getCustomWidth inst else 0)"
    and "getInstanceHeight g s inst = Inr (if hasCustomSize inst then getCustomHeight inst else 0)"
  using assms
  by (simp_all add: getInstanceLeft_def getInstanceTop_def getInstanceWidth_def
        getInstanceHeight_def js_get_def)

lemma measurer_delegation:
  assumes "map_of (layersRenderers s) (getLayer inst) = Some r"
  shows "getInstanceLeft g s inst = Inr (lrInstanceLeft g r inst)"
    and "getInstanceTop g s inst = Inr (lrInstanceTop g r inst)"
    and "getInstanceWidth g s inst =
           Inr (if hasCustomSize inst then getCustomWidth inst else lrInstanceWidth g r inst)"
    and "getInstanceHeight g s inst =
           Inr (if hasCustomSize inst then getCustomHeight inst else lrInstanceHeight g r inst)"
  using assms
  by (simp_all add: getInstanceLeft_def getInstanceTop_def getInstanceWidth_def
        getInstanceHeight_def js_get_def)

text \<open>A query throws exactly when the layer name of the instance is that of an
  inherited property and, for the width and the height, the instance has no custom size.\<close>

lemma measurer_throws_iff:
  "(getInstanceLeft g s inst = Inl TypeError) =
     (getLayer inst \<in> set (prototype_keys s) \<and> \<not> hasOwnProperty (layersRenderers s) (getLayer inst))"
  "(getInstanceTop g s inst = Inl TypeError) =
     (getLayer inst \<in> set (prototype_keys s) \<and> \<not> hasOwnProperty (layersRenderers s) (getLayer inst))"
  "(getInstanceWidth g s inst = Inl TypeError) =
     (\<not> hasCustomSize inst \<and> getLayer inst \<in> set (prototype_keys s) \<and>
      \<not> hasOwnProperty (layersRenderers s) (getLayer inst))"
  "(getInstanceHeight g s inst = Inl TypeError) =
     (\<not> hasCustomSize inst \<and> getLayer inst \<in> set (prototype_keys s) \<and>
      \<not> hasOwnProperty (layersRenderers s) (getLayer inst))"
  by (simp_all add: getInstanceLeft_def getInstanceTop_def getInstanceWidth_def
        getInstanceHeight_def js_get_def hasOwnProperty_def split: option.splits)

text \<open>
  Claim C5 says that for every instance whose layer has no entry in the mapping
  \<^verbatim>\<open>getInstanceLeft\<close> and \<^verbatim>\<open>getInstanceTop\<close> return the stored \<^verbatim>\<open>x\<close> and \<^verbatim>\<open>y\<close>,
  \<^verbatim>\<open>getInstanceWidth\<close> and \<^verbatim>\<open>getInstanceHeight\<close> return the custom size or \<open>0\<close>, and
  that no query ever throws.  On a new \<^verbatim>\<open>InstancesRenderer\<close>, for an instance without
  custom size on a layer named \<^verbatim>\<open>constructor\<close>, the mapping has no own entry of that
  name, and yet each of the four queries throws a \<^verbatim>\<open>TypeError\<close>: the read
  \<^verbatim>\<open>this.layersRenderers[layerName]\<close> yields \<^verbatim>\<open>Object.prototype.constructor\<close>, which
  has no method \<^verbatim>\<open>getInstanceLeft\<close>.
\<close>

theorem measurer_throws_on_inherited_layer_name:
  "hasOwnProperty (layersRenderers constructor) ''constructor'' = False
   \<and> getInstanceLeft g constructor
        \<lparr>getLayer = ''constructor'', getX = 10, getY = 20, hasCustomSize = False,
         getCustomWidth = 0, getCustomHeight = 0\<rparr> = Inl TypeError
   \<and> getInstanceTop g constructor
        \<lparr>getLayer = ''constructor'', getX = 10, getY = 20, hasCustomSize = False,
         getCustomWidth = 0, getCustomHeight = 0\<rparr> = Inl TypeError
   \<and> getInstanceWidth g constructor
        \<lparr>getLayer = ''constructor'', getX = 10, getY = 20, hasCustomSize = False,
         getCustomWidth = 0, getCustomHeight = 0\<rparr> = Inl TypeError
   \<and> getInstanceHeight g constructor
        \<lparr>getLayer = ''constructor'', getX = 10, getY = 20, hasCustomSize = False,
         getCustomWidth = 0, getCustomHeight = 0\<rparr> = Inl TypeError"
  by (simp add: getInstanceLeft_def getInstanceTop_def getInstanceWidth_def
        getInstanceHeight_def js_get_def hasOwnProperty_def object_prototype_keys_def
        prototype_keys_def constructor_def)

text \<open>
  \<^verbatim>\<open>getInstanceRect\<close> returns a record \<open>r\<close> exactly when the four queries return, on the
  same instance in the same state, the values of its fields \<^verbatim>\<open>x\<close>, \<^verbatim>\<open>y\<close>, \<^verbatim>\<open>width\<close>
  and \<^verbatim>\<open>height\<close>; it throws exactly when one of the four throws.
\<close>

lemma getInstanceRect_cases:
  "((getInstanceRect g s inst = Inr r) =
      (getInstanceLeft g s inst = Inr (rect_x r) \<and> getInstanceTop g s inst = Inr (rect_y r) \<and>
       getInstanceWidth g s inst = Inr (rect_width r) \<and>
       getInstanceHeight g s inst = Inr (rect_height r)))
   \<and> ((\<exists>e. getInstanceRect g s inst = Inl e) =
      (\<exists>e. getInstanceLeft g s inst = Inl e \<or> getInstanceTop g s inst = Inl e \<or>
           getInstanceWidth g s inst = Inl e \<or> getInstanceHeight g s inst = Inl e))"
  by (cases r) (auto simp: getInstanceRect_def split: sum.splits)

text \<open>For an instance whose layer has an entry, or whose layer name is not the name of a
  property of \<^verbatim>\<open>Object.prototype\<close>, \<^verbatim>\<open>getInstanceRect\<close> returns a record, and its fields
  are what the four queries return.\<close>

lemma getInstanceRect_returns:
  assumes "hasOwnProperty (layersRenderers s) (getLayer inst) \<or>
           getLayer inst \<notin> set (prototype_keys s)"
  shows "\<exists>r. getInstanceRect g s inst = Inr r \<and>
             getInstanceLeft g s inst = Inr (rect_x r) \<and>
             getInstanceTop g s inst = Inr (rect_y r) \<and>
             getInstanceWidth g s inst = Inr (rect_width r) \<and>
             getInstanceHeight g s inst = Inr (rect_height r)"
  using assms
  by (auto simp: getInstanceRect_def getInstanceLeft_def getInstanceTop_def
        getInstanceWidth_def getInstanceHeight_def js_get_def hasOwnProperty_def
        split: option.splits)

text \<open>
  Claim C9 says that for every instance \<^verbatim>\<open>getInstanceRect\<close> returns a record whose fields
  are the values that \<^verbatim>\<open>getInstanceLeft\<close>, \<^verbatim>\<open>getInstanceTop\<close>, \<^verbatim>\<open>getInstanceWidth\<close>
  and \<^verbatim>\<open>getInstanceHeight\<close> return for it.  On a new \<^verbatim>\<open>InstancesRenderer\<close>, for an
  instance with the custom size 64 by 32 on a layer named \<^verbatim>\<open>constructor\<close>,
  \<^verbatim>\<open>getInstanceWidth\<close> returns 64 and \<^verbatim>\<open>getInstanceHeight\<close> returns 32, but
  \<^verbatim>\<open>getInstanceRect\<close> returns no record: its first field calls \<^verbatim>\<open>getInstanceLeft\<close>,
  which throws a \<^verbatim>\<open>TypeError\<close>.
\<close>

theorem getInstanceRect_throws_on_inherited_layer_name:
  "getInstanceWidth g constructor
        \<lparr>getLayer = ''constructor'', getX = 10, getY = 20, hasCustomSize = True,
         getCustomWidth = 64, getCustomHeight = 32\<rparr> = Inr 64
   \<and> getInstanceHeight g constructor
        \<lparr>getLayer = ''constructor'', getX = 10, getY = 20, hasCustomSize = True,
         getCustomWidth = 64, getCustomHeight = 32\<rparr> = Inr 32
   \<and> getInstanceLeft g constructor
        \<lparr>getLayer = ''constructor'', getX = 10, getY = 20, hasCustomSize = True,
         getCustomWidth = 64, getCustomHeight = 32\<rparr> = Inl TypeError
   \<and> getInstanceRect g constructor
        \<lparr>getLayer = ''constructor'', getX = 10, getY = 20, hasCustomSize = True,
         getCustomWidth = 64, getCustomHeight = 32\<rparr> = Inl TypeError"
  by (simp add: getInstanceRect_def getInstanceLeft_def getInstanceTop_def
        getInstanceWidth_def getInstanceHeight_def js_get_def object_prototype_keys_def
        prototype_keys_def constructor_def)

section \<open>The render pass\<close>

subsection \<open>The loop over the layers\<close>

lemma foreign_writes_fields [simp]:
  "layersRenderers (foreign_writes k s) = layersRenderers s"
  "heap (foreign_writes k s) = heap s"
  "nextRef (foreign_writes k s) = nextRef s"
  "pixiChildren (foreign_writes k s) = pixiChildren s"
  "calls (foreign_writes k s) = calls s"
  by (simp_all add: foreign_writes_def)

lemma visit_prototypeAdded [simp]: "prototypeAdded (visit i l s) = prototypeAdded s"
  by (simp add: visit_def use_renderer_def create_renderer_def split: option.splits)

lemma visits_prototypeAdded [simp]: "prototypeAdded (visits i ls s) = prototypeAdded s"
  by (induction ls arbitrary: i s) simp_all

lemma render_layer_result:
  "render_layer i l s = (Normal, visit i l s) \<or>
   render_layer i l s = (Throw TypeError, foreign_writes (getName l) s)"
  by (simp add: render_layer_def visit_def js_get_def split: option.splits)

lemma render_layer_ordinary:
  "getName l \<notin> set (prototype_keys s) \<Longrightarrow> render_layer i l s = (Normal, visit i l s)"
  by (simp add: render_layer_def visit_def js_get_def split: option.splits)

lemma render_layers_ordinary:
  "prototypeAdded s = [] \<Longrightarrow> ordinary_names ls \<Longrightarrow>
   render_layers i ls s = (Normal, visits i ls s)"
  by (induction ls arbitrary: i s)
     (simp_all add: ordinary_names_def render_layer_ordinary prototype_keys_def)

lemma js_set_new:
  assumes "map_of obj k = None"
  shows "\<exists>A B. obj = A @ B \<and> js_set obj k r = A @ (k, r) # B"
proof (cases "is_array_index k")
  case True
  let ?P = "\<lambda>(k', _). is_array_index k' \<and> array_index_value k' < array_index_value k"
  have "obj = takeWhile ?P obj @ dropWhile ?P obj" by simp
  moreover have "js_set obj k r = takeWhile ?P obj @ (k, r) # dropWhile ?P obj"
    using assms True by (simp add: js_set_def hasOwnProperty_def)
  ultimately show ?thesis by blast
next
  case False
  then have "js_set obj k r = obj @ (k, r) # []"
    using assms by (simp add: js_set_def hasOwnProperty_def)
  then show ?thesis by (intro exI [of _ obj] exI [of _ "[]"]) simp
qed

lemma map_of_None_keys: "(map_of obj k = None) = (k \<notin> set (map fst obj))"
  by (simp add: map_of_eq_None_iff)

lemma js_set_new_map_of:
  assumes "map_of obj k = None"
  shows "map_of (js_set obj k r) k' = (if k' = k then Some r else map_of obj k')"
proof -
  obtain A B where ab: "obj = A @ B" "js_set (A @ B) k r = A @ (k, r) # B"
    using js_set_new [OF assms] by metis
  have "map_of A k = None" using assms ab(1) by (simp add: map_of_None_keys)
  then show ?thesis
    unfolding ab by (auto simp: map_add_def split: option.splits)
qed

lemma js_set_new_keys:
  assumes "map_of obj k = None"
  shows "set (map fst (js_set obj k r)) = insert k (set (map fst obj))"
    and "distinct (map fst (js_set obj k r)) = distinct (map fst obj)"
proof -
  obtain A B where ab: "obj = A @ B" "js_set (A @ B) k r = A @ (k, r) # B"
    using js_set_new [OF assms] by metis
  have k: "k \<notin> set (map fst A)" "k \<notin> set (map fst B)"
    using assms ab(1) by (simp_all add: map_of_None_keys)
  show "set (map fst (js_set obj k r)) = insert k (set (map fst obj))"
    unfolding ab by auto
  show "distinct (map fst (js_set obj k r)) = distinct (map fst obj)"
    using k unfolding ab by auto
qed

lemma js_set_new_values:
  assumes "map_of obj k = None"
  shows "set (map snd (js_set obj k r)) = insert r (set (map snd obj))"
    and "distinct (map snd (js_set obj k r)) = (r \<notin> set (map snd obj) \<and> distinct (map snd obj))"
proof -
  obtain A B where ab: "obj = A @ B" "js_set (A @ B) k r = A @ (k, r) # B"
    using js_set_new [OF assms] by metis
  show "set (map snd (js_set obj k r)) = insert r (set (map snd obj))"
    unfolding ab by auto
  show "distinct (map snd (js_set obj k r)) = (r \<notin> set (map snd obj) \<and> distinct (map snd obj))"
    unfolding ab by auto
qed

lemma visit_layersRenderers:
  "layersRenderers (visit i l s) =
     (if map_of (layersRenderers s) (getName l) = None
      then js_set (layersRenderers s) (getName l) (nextRef s) else layersRenderers s)"
  by (auto simp: visit_def use_renderer_def create_renderer_def split: option.splits)

lemma visit_map_of:
  "map_of (layersRenderers (visit i l s)) k =
     (if k = getName l \<and> map_of (layersRenderers s) k = None then Some (nextRef s)
      else map_of (layersRenderers s) k)"
  by (auto simp: visit_layersRenderers js_set_new_map_of)

lemma visit_keys_set:
  "set (map fst (layersRenderers (visit i l s))) =
     insert (getName l) (set (map fst (layersRenderers s)))"
  by (auto simp: visit_layersRenderers js_set_new_keys(1) map_of_None_keys simp del: set_map)

lemma visit_values_set:
  "set (map snd (layersRenderers (visit i l s))) =
     (if map_of (layersRenderers s) (getName l) = None
      then insert (nextRef s) (set (map snd (layersRenderers s)))
      else set (map snd (layersRenderers s)))"
  by (simp add: visit_layersRenderers js_set_new_values(1) del: set_map)

lemma visit_pixiChildren:
  "pixiChildren (visit i l s) =
     (if map_of (layersRenderers s) (getName l) = None
      then pixiChildren s @ [nextRef s] else pixiChildren s)"
  by (auto simp: visit_def use_renderer_def create_renderer_def split: option.splits)

lemma visit_nextRef:
  "nextRef (visit i l s) =
     (if map_of (layersRenderers s) (getName l) = None then Suc (nextRef s) else nextRef s)"
  by (auto simp: visit_def use_renderer_def create_renderer_def split: option.splits)

lemma visit_heap:
  "heap (visit i l s) =
     (heap s)((case map_of (layersRenderers s) (getName l) of Some r \<Rightarrow> r | None \<Rightarrow> nextRef s)
              := \<lparr>layer = l, wasUsed = True, zOrder = Some i\<rparr>)"
  by (auto simp: visit_def use_renderer_def create_renderer_def split: option.splits)

lemma visit_calls:
  "calls (visit i l s) = calls s @
     (case map_of (layersRenderers s) (getName l) of
        Some r \<Rightarrow> [LayerRender r]
      | None \<Rightarrow> [NewLayerRenderer (nextRef s) l, AddChild (nextRef s), LayerRender (nextRef s)])"
  by (auto simp: visit_def use_renderer_def create_renderer_def split: option.splits)

lemma map_of_values_inj:
  "distinct (map snd obj) \<Longrightarrow> map_of obj k = Some r \<Longrightarrow> map_of obj k' = Some r \<Longrightarrow> k = k'"
proof (induction obj)
  case Nil
  then show ?case by simp
next
  case (Cons kv obj)
  then show ?case
    by (cases kv) (auto split: if_splits dest: map_of_SomeD simp: rev_image_eqI)
qed

lemma map_of_value_in: "map_of obj k = Some r \<Longrightarrow> r \<in> set (map snd obj)"
  by (auto dest: map_of_SomeD simp: rev_image_eqI)

lemma well_formed_bound:
  "well_formed s \<Longrightarrow> map_of (layersRenderers s) k = Some r \<Longrightarrow> r < nextRef s"
  using map_of_value_in [of "layersRenderers s" k r] unfolding well_formed_def by blast

lemma well_formed_visit:
  assumes "well_formed s"
  shows "well_formed (visit i l s)"
proof (cases "map_of (layersRenderers s) (getName l)")
  case None
  have fresh: "nextRef s \<notin> set (map snd (layersRenderers s))"
    using assms by (auto simp: well_formed_def)
  have eq: "layersRenderers (visit i l s) = js_set (layersRenderers s) (getName l) (nextRef s)"
    using None by (simp add: visit_layersRenderers)
  show ?thesis
    using assms fresh unfolding well_formed_def eq visit_pixiChildren visit_nextRef
      js_set_new_keys [OF None] js_set_new_values [OF None]
    by (auto simp: None less_Suc_eq simp del: set_map)
next
  case (Some r)
  then show ?thesis
    using assms
    by (simp add: well_formed_def visit_layersRenderers visit_pixiChildren visit_nextRef
          del: set_map)
qed

lemma well_formed_visits: "well_formed s \<Longrightarrow> well_formed (visits i ls s)"
  by (induction ls arbitrary: i s) (simp_all add: well_formed_visit)

lemma visits_map_of_mono:
  "map_of (layersRenderers s) k = Some r \<Longrightarrow> map_of (layersRenderers (visits i ls s)) k = Some r"
  by (induction ls arbitrary: i s) (simp_all add: visit_map_of)

lemma visits_keys:
  "set (map fst (layersRenderers (visits i ls s))) =
     set (map fst (layersRenderers s)) \<union> getName ` set ls"
proof (induction ls arbitrary: i s)
  case Nil
  then show ?case by simp
next
  case (Cons l ls)
  show ?case
    by (simp only: visits.simps Cons.IH visit_keys_set) auto
qed

lemma visits_nextRef_mono: "nextRef s \<le> nextRef (visits i ls s)"
proof (induction ls arbitrary: i s)
  case Nil
  then show ?case by simp
next
  case (Cons l ls)
  have "nextRef s \<le> nextRef (visit i l s)" by (simp add: visit_nextRef)
  also have "\<dots> \<le> nextRef (visits (Suc i) ls (visit i l s))" by (rule Cons.IH)
  finally show ?case by simp
qed

lemma visit_heap_other:
  assumes "well_formed s" "map_of (layersRenderers s) k = Some r" "k \<noteq> getName l"
  shows "heap (visit i l s) r = heap s r"
proof -
  have "r < nextRef s"
    using assms(1,2) by (auto simp: well_formed_def dest: map_of_value_in)
  moreover have "r' \<noteq> r" if "map_of (layersRenderers s) (getName l) = Some r'" for r'
    using assms that map_of_values_inj [of "layersRenderers s" k r "getName l"]
    by (auto simp: well_formed_def)
  ultimately show ?thesis
    by (auto simp: visit_heap split: option.splits)
qed

lemma visits_heap_other:
  "well_formed s \<Longrightarrow> map_of (layersRenderers s) k = Some r \<Longrightarrow> k \<notin> getName ` set ls \<Longrightarrow>
   heap (visits i ls s) r = heap s r"
proof (induction ls arbitrary: i s)
  case Nil
  then show ?case by simp
next
  case (Cons l ls)
  have "heap (visits (Suc i) ls (visit i l s)) r = heap (visit i l s) r"
    using Cons.prems by (intro Cons.IH) (auto simp: well_formed_visit visit_map_of)
  also have "\<dots> = heap s r"
    using Cons.prems by (intro visit_heap_other) auto
  finally show ?case by simp
qed

lemma visit_target:
  "\<exists>r. map_of (layersRenderers (visit i l s)) (getName l) = Some r \<and>
       heap (visit i l s) r = \<lparr>layer = l, wasUsed = True, zOrder = Some i\<rparr>"
  by (auto simp: visit_map_of visit_heap split: option.splits)


text \<open>After the loop, the layer at position \<open>j\<close> has an entry, and the layer renderer of
  that entry holds this layer object, is marked as used and has the index \<open>j\<close> (counted
  from the first index \<open>i\<close> of the loop) as \<^verbatim>\<open>zOrder\<close>.\<close>

lemma visits_touched:
  "well_formed s \<Longrightarrow> distinct (map getName ls) \<Longrightarrow> j < length ls \<Longrightarrow>
   \<exists>r. map_of (layersRenderers (visits i ls s)) (getName (ls ! j)) = Some r \<and>
       heap (visits i ls s) r = \<lparr>layer = ls ! j, wasUsed = True, zOrder = Some (i + j)\<rparr>"
proof (induction ls arbitrary: i s j)
  case Nil
  then show ?case by simp
next
  case (Cons l ls)
  let ?s1 = "visit i l s"
  have wf1: "well_formed ?s1" using Cons.prems(1) by (rule well_formed_visit)
  show ?case
  proof (cases j)
    case 0
    obtain r where r: "map_of (layersRenderers ?s1) (getName l) = Some r"
      "heap ?s1 r = \<lparr>layer = l, wasUsed = True, zOrder = Some i\<rparr>"
      using visit_target by blast
    have "getName l \<notin> getName ` set ls" using Cons.prems(2) by auto
    then have "heap (visits (Suc i) ls ?s1) r = heap ?s1 r"
      using wf1 r(1) by (intro visits_heap_other)
    with r visits_map_of_mono [OF r(1)] 0 show ?thesis by simp
  next
    case (Suc j')
    then have "j' < length ls" using Cons.prems(3) by simp
    moreover have "distinct (map getName ls)" using Cons.prems(2) by simp
    ultimately show ?thesis
      using Cons.IH [OF wf1, of j' "Suc i"] Suc by simp
  qed
qed

lemma visits_fresh:
  "map_of (layersRenderers s) k = None \<Longrightarrow> map_of (layersRenderers (visits i ls s)) k = Some r \<Longrightarrow>
   nextRef s \<le> r"
proof (induction ls arbitrary: i s)
  case Nil
  then show ?case by simp
next
  case (Cons l ls)
  let ?s1 = "visit i l s"
  show ?case
  proof (cases "map_of (layersRenderers ?s1) k")
    case None
    then have "nextRef ?s1 \<le> r" using Cons.prems(2) by (intro Cons.IH) simp_all
    moreover have "nextRef s \<le> nextRef ?s1" by (simp add: visit_nextRef)
    ultimately show ?thesis by simp
  next
    case (Some r')
    then have "r' = nextRef s"
      using Cons.prems(1) by (simp add: visit_map_of split: if_splits)
    moreover have "map_of (layersRenderers (visits (Suc i) ls ?s1)) k = Some r'"
      using Some by (rule visits_map_of_mono)
    ultimately show ?thesis using Cons.prems(2) by simp
  qed
qed

lemma quiet_calls_append [simp]: "quiet_calls n (cs @ ds) = (quiet_calls n cs \<and> quiet_calls n ds)"
  by (auto simp: quiet_calls_def)

lemma quiet_calls_mono: "quiet_calls m cs \<Longrightarrow> n \<le> m \<Longrightarrow> quiet_calls n cs"
  by (fastforce simp: quiet_calls_def split: call.splits)

lemma visit_calls_quiet: "\<exists>cs. calls (visit i l s) = calls s @ cs \<and> quiet_calls (nextRef s) cs"
  by (auto simp: visit_calls quiet_calls_def split: option.splits)

lemma visits_calls_quiet:
  "\<exists>cs. calls (visits i ls s) = calls s @ cs \<and> quiet_calls (nextRef s) cs"
proof (induction ls arbitrary: i s)
  case Nil
  then show ?case by (simp add: quiet_calls_def)
next
  case (Cons l ls)
  let ?s1 = "visit i l s"
  obtain cs where cs: "calls ?s1 = calls s @ cs" "quiet_calls (nextRef s) cs"
    using visit_calls_quiet by blast
  obtain ds where ds: "calls (visits (Suc i) ls ?s1) = calls ?s1 @ ds" "quiet_calls (nextRef ?s1) ds"
    using Cons.IH by blast
  have "quiet_calls (nextRef s) ds"
    using ds(2) by (rule quiet_calls_mono) (simp add: visit_nextRef)
  with cs ds show ?case by simp
qed

lemma visits_creates:
  "distinct (map getName ls) \<Longrightarrow> l \<in> set ls \<Longrightarrow> map_of (layersRenderers s) (getName l) = None \<Longrightarrow>
   \<exists>r cs. calls (visits i ls s) = calls s @ cs \<and> NewLayerRenderer r l \<in> set cs \<and>
          map_of (layersRenderers (visits i ls s)) (getName l) = Some r \<and> nextRef s \<le> r"
proof (induction ls arbitrary: i s)
  case Nil
  then show ?case by simp
next
  case (Cons l0 ls)
  let ?s1 = "visit i l0 s"
  obtain ds where ds: "calls (visits (Suc i) ls ?s1) = calls ?s1 @ ds"
    using visits_calls_quiet by blast
  show ?case
  proof (cases "l = l0")
    case True
    have c1: "calls ?s1 = calls s @ [NewLayerRenderer (nextRef s) l, AddChild (nextRef s),
                                    LayerRender (nextRef s)]"
      using Cons.prems(3) True by (simp add: visit_calls)
    have "map_of (layersRenderers ?s1) (getName l) = Some (nextRef s)"
      using Cons.prems(3) True by (simp add: visit_map_of)
    then have "map_of (layersRenderers (visits (Suc i) ls ?s1)) (getName l) = Some (nextRef s)"
      by (rule visits_map_of_mono)
    then show ?thesis using c1 ds by auto
  next
    case False
    then have l: "l \<in> set ls" using Cons.prems(2) by simp
    then have ne: "getName l \<noteq> getName l0"
      using Cons.prems(1) by (auto simp: image_iff)
    have "map_of (layersRenderers ?s1) (getName l) = None"
      using Cons.prems(3) ne by (simp add: visit_map_of)
    with Cons.IH [of ?s1 "Suc i"] Cons.prems(1) l
    obtain r cs where r: "calls (visits (Suc i) ls ?s1) = calls ?s1 @ cs"
      "NewLayerRenderer r l \<in> set cs"
      "map_of (layersRenderers (visits (Suc i) ls ?s1)) (getName l) = Some r" "nextRef ?s1 \<le> r"
      by auto
    obtain cs0 where cs0: "calls ?s1 = calls s @ cs0" using visit_calls_quiet by blast
    have "nextRef s \<le> r" using r(4) by (simp add: visit_nextRef split: if_splits)
    then show ?thesis using r cs0 by auto
  qed
qed


text \<open>After the loop an entry is marked as used exactly when its key is the name of a
  layer of the layout.\<close>

lemma visits_flags:
  assumes "well_formed s" "idle s" "distinct (map getName ls)"
    and "(k, r) \<in> set (layersRenderers (visits i ls s))"
  shows "wasUsed (heap (visits i ls s) r) = (k \<in> getName ` set ls)"
proof -
  let ?t = "visits i ls s"
  have wft: "well_formed ?t" using assms(1) by (rule well_formed_visits)
  then have kr: "map_of (layersRenderers ?t) k = Some r"
    using assms(4) by (simp add: well_formed_def)
  show ?thesis
  proof (cases "k \<in> getName ` set ls")
    case True
    then obtain j where j: "j < length ls" "k = getName (ls ! j)"
      by (auto simp: in_set_conv_nth)
    from visits_touched [OF assms(1,3) j(1), of i] kr j(2) True show ?thesis by auto
  next
    case False
    have "k \<in> set (map fst (layersRenderers ?t))" using assms(4) by (auto simp: rev_image_eqI)
    then have "k \<in> set (map fst (layersRenderers s))"
      using False by (simp only: visits_keys) blast
    then obtain r0 where r0: "map_of (layersRenderers s) k = Some r0"
      by (cases "map_of (layersRenderers s) k") (auto simp: map_of_None_keys)
    then have "r0 = r" using visits_map_of_mono [OF r0, of i ls] kr by simp
    moreover have "heap ?t r0 = heap s r0" using assms(1) r0 False by (rule visits_heap_other)
    moreover have "\<not> wasUsed (heap s r0)"
      using assms(2) map_of_value_in [OF r0] unfolding idle_def by blast
    ultimately show ?thesis using False by simp
  qed
qed


subsection \<open>The sort of the children\<close>

lemma sort_layersRenderers [simp]:
  "layersRenderers (updatePixiObjectsZOrder s) = layersRenderers s"
  by (simp add: updatePixiObjectsZOrder_def)

lemma sort_nextRef [simp]: "nextRef (updatePixiObjectsZOrder s) = nextRef s"
  by (simp add: updatePixiObjectsZOrder_def)

lemma sort_calls [simp]: "calls (updatePixiObjectsZOrder s) = calls s"
  by (simp add: updatePixiObjectsZOrder_def)

lemma sort_prototypeAdded [simp]: "prototypeAdded (updatePixiObjectsZOrder s) = prototypeAdded s"
  by (simp add: updatePixiObjectsZOrder_def)

lemma sort_pixiChildren:
  "pixiChildren (updatePixiObjectsZOrder s) =
     sort_key (\<lambda>c. zOrder_or_0 (zOrder (heap s c))) (pixiChildren s)"
  by (simp add: updatePixiObjectsZOrder_def)

lemma sort_wasUsed [simp]: "wasUsed (heap (updatePixiObjectsZOrder s) r) = wasUsed (heap s r)"
  by (simp add: updatePixiObjectsZOrder_def)

lemma sort_layer [simp]: "layer (heap (updatePixiObjectsZOrder s) r) = layer (heap s r)"
  by (simp add: updatePixiObjectsZOrder_def)

lemma sort_zOrder:
  "zOrder (heap s r) = Some z \<Longrightarrow> zOrder (heap (updatePixiObjectsZOrder s) r) = Some z"
  by (simp add: updatePixiObjectsZOrder_def zOrder_or_0_def)

lemma well_formed_sort: "well_formed s \<Longrightarrow> well_formed (updatePixiObjectsZOrder s)"
  by (simp add: well_formed_def sort_pixiChildren)


text \<open>The sort orders the children by \<^verbatim>\<open>zOrder || 0\<close> and keeps the children of equal
  \<^verbatim>\<open>zOrder\<close> in the order they had.\<close>

lemma sort_is_stable:
  "sorted (map (\<lambda>c. zOrder_or_0 (zOrder (heap s c))) (pixiChildren (updatePixiObjectsZOrder s)))"
  "filter (\<lambda>c. zOrder_or_0 (zOrder (heap s c)) = z) (pixiChildren (updatePixiObjectsZOrder s))
     = filter (\<lambda>c. zOrder_or_0 (zOrder (heap s c)) = z) (pixiChildren s)"
  by (simp_all add: sort_pixiChildren sort_key_stable)

subsection \<open>The removal of the unused layer renderers\<close>

lemma clean_key_cases:
  "clean_key k s =
     (case map_of (layersRenderers s) k of
        None \<Rightarrow> s
      | Some r \<Rightarrow>
          if \<not> wasUsed (heap s r) then
            s\<lparr>pixiChildren := remove1 r (pixiChildren s),
              calls := calls s @ [RemoveChild r, LayerDelete r],
              layersRenderers := filter (\<lambda>(k', _). k' \<noteq> k) (layersRenderers s)\<rparr>
          else s\<lparr>heap := (heap s)(r := (heap s r)\<lparr>wasUsed := False\<rparr>)\<rparr>)"
  by (simp add: clean_key_def hasOwnProperty_def js_get_def split: option.splits)

lemma map_of_filter_other_key:
  "k' \<noteq> k \<Longrightarrow> map_of (filter (\<lambda>(a, _). a \<noteq> k) obj) k' = map_of obj k'"
  by (induction obj) auto

lemma clean_key_map_of_other:
  "k' \<noteq> k \<Longrightarrow> map_of (layersRenderers (clean_key k s)) k' = map_of (layersRenderers s) k'"
  by (simp add: clean_key_cases map_of_filter_other_key split: option.splits)

lemma clean_key_heap_other:
  assumes "distinct (map snd (layersRenderers s))" "k' \<noteq> k"
    and "map_of (layersRenderers s) k' = Some r'"
  shows "heap (clean_key k s) r' = heap s r'"
proof -
  have "r \<noteq> r'" if "map_of (layersRenderers s) k = Some r" for r
    using map_of_values_inj [OF assms(1) that, of k'] assms(2,3) by auto
  then show ?thesis
    by (auto simp: clean_key_cases split: option.splits)
qed

lemma distinct_map_filter_fst: "distinct (map fst obj) \<Longrightarrow> distinct (map fst (filter P obj))"
  by (induction obj) (auto simp: rev_image_eqI)

lemma distinct_map_filter_snd: "distinct (map snd obj) \<Longrightarrow> distinct (map snd (filter P obj))"
  by (induction obj) (auto simp: rev_image_eqI)

lemma clean_key_distinct_keys:
  "distinct (map fst (layersRenderers s)) \<Longrightarrow> distinct (map fst (layersRenderers (clean_key k s)))"
  by (simp add: clean_key_cases distinct_map_filter_fst split: option.splits)

lemma clean_key_distinct_values:
  "distinct (map snd (layersRenderers s)) \<Longrightarrow> distinct (map snd (layersRenderers (clean_key k s)))"
  by (simp add: clean_key_cases distinct_map_filter_snd split: option.splits)

lemma clean_key_calls: "calls (clean_key k s) = calls s @ sweep_calls s k"
  by (simp add: clean_key_cases sweep_calls_def split: option.splits)

lemma clean_key_sweep_calls_other:
  assumes "distinct (map snd (layersRenderers s))" "k' \<noteq> k"
  shows "sweep_calls (clean_key k s) k' = sweep_calls s k'"
  using clean_key_heap_other [OF assms] clean_key_map_of_other [OF assms(2), of s]
  by (auto simp: sweep_calls_def split: option.splits)

lemma clean_keys_calls:
  "distinct (map snd (layersRenderers s)) \<Longrightarrow> distinct ks \<Longrightarrow>
   calls (clean_keys ks s) = calls s @ concat (map (sweep_calls s) ks)"
proof (induction ks arbitrary: s)
  case Nil
  then show ?case by simp
next
  case (Cons k ks)
  let ?s1 = "clean_key k s"
  have "calls (clean_keys ks ?s1) = calls ?s1 @ concat (map (sweep_calls ?s1) ks)"
    using Cons.prems by (intro Cons.IH) (simp_all add: clean_key_distinct_values)
  moreover have "map (sweep_calls ?s1) ks = map (sweep_calls s) ks"
    using Cons.prems by (intro map_cong [OF refl] clean_key_sweep_calls_other) auto
  ultimately show ?case by (simp add: clean_key_calls)
qed

lemma clean_key_layersRenderers:
  "distinct (map fst (layersRenderers s)) \<Longrightarrow>
   layersRenderers (clean_key k s) =
     filter (\<lambda>(k', r). k' \<noteq> k \<or> wasUsed (heap s r)) (layersRenderers s)"
proof (cases "map_of (layersRenderers s) k")
  case None
  assume "distinct (map fst (layersRenderers s))"
  have "\<forall>kv \<in> set (layersRenderers s). fst kv \<noteq> k"
    using None by (auto simp: map_of_None_keys)
  then have "filter (\<lambda>(k', r). k' \<noteq> k \<or> wasUsed (heap s r)) (layersRenderers s) = layersRenderers s"
    by (intro filter_True) auto
  then show ?thesis using None by (simp add: clean_key_cases)
next
  case (Some r)
  assume d: "distinct (map fst (layersRenderers s))"
  have own: "r' = r" if "(k, r') \<in> set (layersRenderers s)" for r'
    using d that Some by simp
  show ?thesis
  proof (cases "wasUsed (heap s r)")
    case True
    have "filter (\<lambda>(k', r). k' \<noteq> k \<or> wasUsed (heap s r)) (layersRenderers s) = layersRenderers s"
      using own True by (intro filter_True) auto
    then show ?thesis using Some True by (simp add: clean_key_cases)
  next
    case False
    have "filter (\<lambda>(k', r). k' \<noteq> k \<or> wasUsed (heap s r)) (layersRenderers s)
          = filter (\<lambda>(k', _). k' \<noteq> k) (layersRenderers s)"
      using own False by (intro filter_cong [OF refl]) auto
    then show ?thesis using Some False by (simp add: clean_key_cases)
  qed
qed

lemma clean_keys_layersRenderers:
  "distinct (map fst (layersRenderers s)) \<Longrightarrow> distinct (map snd (layersRenderers s)) \<Longrightarrow>
   distinct ks \<Longrightarrow>
   layersRenderers (clean_keys ks s) =
     filter (\<lambda>(k, r). k \<notin> set ks \<or> wasUsed (heap s r)) (layersRenderers s)"
proof (induction ks arbitrary: s)
  case Nil
  then show ?case by simp
next
  case (Cons k ks)
  let ?s1 = "clean_key k s"
  have "layersRenderers (clean_keys ks ?s1) =
          filter (\<lambda>(k', r). k' \<notin> set ks \<or> wasUsed (heap ?s1 r)) (layersRenderers ?s1)"
    using Cons.prems
    by (intro Cons.IH) (simp_all add: clean_key_distinct_keys clean_key_distinct_values)
  also have "\<dots> = filter (\<lambda>(k', r). k' \<notin> set ks \<or> wasUsed (heap ?s1 r))
                      (filter (\<lambda>(k', r). k' \<noteq> k \<or> wasUsed (heap s r)) (layersRenderers s))"
    using Cons.prems(1) by (simp add: clean_key_layersRenderers)
  also have "\<dots> = filter (\<lambda>(k', r). k' \<notin> set (k # ks) \<or> wasUsed (heap s r)) (layersRenderers s)"
    unfolding filter_filter
  proof (rule filter_cong [OF refl])
    fix kv assume kv: "kv \<in> set (layersRenderers s)"
    obtain k' r' where [simp]: "kv = (k', r')" by (cases kv)
    have m: "map_of (layersRenderers s) k' = Some r'"
      using kv Cons.prems(1) by simp
    show "((case kv of (k', r) \<Rightarrow> k' \<noteq> k \<or> wasUsed (heap s r)) \<and>
           (case kv of (k', r) \<Rightarrow> k' \<notin> set ks \<or> wasUsed (heap ?s1 r)))
          = (case kv of (k', r) \<Rightarrow> k' \<notin> set (k # ks) \<or> wasUsed (heap s r))"
    proof (cases "k' = k")
      case True
      then have "k' \<notin> set ks" using Cons.prems(3) by simp
      with True show ?thesis by auto
    next
      case False
      then have "heap ?s1 r' = heap s r'"
        using Cons.prems(2) m by (intro clean_key_heap_other) auto
      with False show ?thesis by auto
    qed
  qed
  finally show ?case by simp
qed

lemma clean_key_heap:
  "heap (clean_key k s) =
     (case map_of (layersRenderers s) k of
        None \<Rightarrow> heap s
      | Some r \<Rightarrow> (heap s)(r := (heap s r)\<lparr>wasUsed := False\<rparr>))"
  by (auto simp: clean_key_cases fun_eq_iff split: option.splits)

lemma clean_key_nextRef [simp]: "nextRef (clean_key k s) = nextRef s"
  by (simp add: clean_key_cases split: option.splits)

lemma clean_keys_nextRef [simp]: "nextRef (clean_keys ks s) = nextRef s"
  by (induction ks arbitrary: s) simp_all

lemma clean_key_visited_other:
  "k \<notin> set ks \<Longrightarrow> visited (clean_key k s) ks r = visited s ks r"
proof -
  assume "k \<notin> set ks"
  then have "map_of (layersRenderers (clean_key k s)) k' = map_of (layersRenderers s) k'"
    if "k' \<in> set ks" for k'
    using that by (intro clean_key_map_of_other) auto
  then show ?thesis by (simp add: visited_def)
qed

lemma clean_keys_heap:
  "distinct ks \<Longrightarrow>
   heap (clean_keys ks s) r =
     (if visited s ks r then (heap s r)\<lparr>wasUsed := False\<rparr> else heap s r)"
proof (induction ks arbitrary: s)
  case Nil
  then show ?case by (simp add: visited_def)
next
  case (Cons k ks)
  let ?s1 = "clean_key k s"
  have k: "k \<notin> set ks" and d: "distinct ks" using Cons.prems by auto
  have IH: "heap (clean_keys ks ?s1) r =
      (if visited s ks r then (heap ?s1 r)\<lparr>wasUsed := False\<rparr> else heap ?s1 r)"
    by (simp only: Cons.IH [OF d] clean_key_visited_other [OF k])
  have v: "visited s (k # ks) r = (map_of (layersRenderers s) k = Some r \<or> visited s ks r)"
    by (auto simp: visited_def)
  show ?case
    by (simp only: clean_keys.simps IH v) (auto simp: clean_key_heap split: option.splits)
qed

lemma clean_key_pixiChildren:
  "distinct (pixiChildren s) \<Longrightarrow>
   pixiChildren (clean_key k s) = filter (\<lambda>c. \<not> swept s [k] c) (pixiChildren s)"
  by (auto simp: clean_key_cases swept_def distinct_remove1_removeAll removeAll_filter_not_eq
           split: option.splits intro: filter_cong)

lemma clean_key_distinct_children:
  "distinct (pixiChildren s) \<Longrightarrow> distinct (pixiChildren (clean_key k s))"
  by (simp add: clean_key_pixiChildren)

lemma clean_key_swept_other:
  assumes "distinct (map snd (layersRenderers s))" "k \<notin> set ks"
  shows "swept (clean_key k s) ks c = swept s ks c"
proof -
  have "(map_of (layersRenderers (clean_key k s)) k' = Some c \<and> \<not> wasUsed (heap (clean_key k s) c))
        = (map_of (layersRenderers s) k' = Some c \<and> \<not> wasUsed (heap s c))"
    if "k' \<in> set ks" for k'
  proof -
    have ne: "k' \<noteq> k" using that assms(2) by auto
    show ?thesis
      using clean_key_heap_other [OF assms(1) ne, of c] clean_key_map_of_other [OF ne, of s]
      by auto
  qed
  then show ?thesis by (simp add: swept_def)
qed

lemma clean_keys_pixiChildren:
  "distinct (pixiChildren s) \<Longrightarrow> distinct (map snd (layersRenderers s)) \<Longrightarrow> distinct ks \<Longrightarrow>
   pixiChildren (clean_keys ks s) = filter (\<lambda>c. \<not> swept s ks c) (pixiChildren s)"
proof (induction ks arbitrary: s)
  case Nil
  then show ?case by (simp add: swept_def)
next
  case (Cons k ks)
  let ?s1 = "clean_key k s"
  have k: "k \<notin> set ks" and d: "distinct ks" using Cons.prems by auto
  have "pixiChildren (clean_keys ks ?s1) = filter (\<lambda>c. \<not> swept ?s1 ks c) (pixiChildren ?s1)"
    using Cons.prems d
    by (intro Cons.IH) (simp_all add: clean_key_distinct_children clean_key_distinct_values)
  also have "\<dots> = filter (\<lambda>c. \<not> swept s ks c) (filter (\<lambda>c. \<not> swept s [k] c) (pixiChildren s))"
    using Cons.prems(1,2) k by (simp add: clean_key_swept_other clean_key_pixiChildren)
  also have "\<dots> = filter (\<lambda>c. \<not> swept s (k # ks) c) (pixiChildren s)"
    unfolding filter_filter by (rule filter_cong [OF refl]) (auto simp: swept_def)
  finally show ?case by simp
qed

lemma clean_key_not_own:
  "map_of (layersRenderers s) k = None \<Longrightarrow> clean_key k s = s"
  by (simp add: clean_key_cases)

lemma clean_key_keeps_not_own:
  "map_of (layersRenderers s) e = None \<Longrightarrow> map_of (layersRenderers (clean_key k s)) e = None"
  by (cases "e = k") (simp_all add: clean_key_not_own clean_key_map_of_other)

lemma clean_keys_keeps_not_own:
  "map_of (layersRenderers s) e = None \<Longrightarrow> map_of (layersRenderers (clean_keys ks s)) e = None"
  by (induction ks arbitrary: s) (simp_all add: clean_key_keeps_not_own)

lemma clean_keys_not_own:
  "\<forall>e \<in> set es. map_of (layersRenderers s) e = None \<Longrightarrow> clean_keys es s = s"
  by (induction es) (simp_all add: clean_key_not_own)

lemma clean_keys_append: "clean_keys (ks @ es) s = clean_keys es (clean_keys ks s)"
  by (induction ks arbitrary: s) simp_all

text \<open>The loop does nothing for the keys that are inherited: the test of
  \<^verbatim>\<open>hasOwnProperty\<close> skips them.\<close>

lemma clean_own_keys:
  "cleanUnusedLayerRenderers s = clean_keys (map fst (layersRenderers s)) s"
proof -
  let ?es = "filter (\<lambda>k. \<not> hasOwnProperty (layersRenderers s) k) (remdups (prototypeAdded s))"
  have "\<forall>e \<in> set ?es. map_of (layersRenderers s) e = None"
    by (simp add: hasOwnProperty_def)
  then have "\<forall>e \<in> set ?es.
      map_of (layersRenderers (clean_keys (map fst (layersRenderers s)) s)) e = None"
    by (blast intro: clean_keys_keeps_not_own)
  then show ?thesis
    unfolding cleanUnusedLayerRenderers_def for_in_keys_def clean_keys_append
    by (rule clean_keys_not_own)
qed

lemma clean_key_prototypeAdded [simp]: "prototypeAdded (clean_key k s) = prototypeAdded s"
  by (simp add: clean_key_cases split: option.splits)

lemma clean_keys_prototypeAdded [simp]: "prototypeAdded (clean_keys ks s) = prototypeAdded s"
  by (induction ks arbitrary: s) simp_all

lemma clean_prototypeAdded [simp]:
  "prototypeAdded (cleanUnusedLayerRenderers s) = prototypeAdded s"
  by (simp add: clean_own_keys)

lemma visited_all_keys:
  "distinct (map fst (layersRenderers s)) \<Longrightarrow>
   visited s (map fst (layersRenderers s)) r = (r \<in> set (map snd (layersRenderers s)))"
proof
  assume "visited s (map fst (layersRenderers s)) r"
  then show "r \<in> set (map snd (layersRenderers s))"
    unfolding visited_def by (blast dest: map_of_value_in)
next
  assume d: "distinct (map fst (layersRenderers s))" and "r \<in> set (map snd (layersRenderers s))"
  then obtain kv where kv: "kv \<in> set (layersRenderers s)" "snd kv = r" by auto
  then have "map_of (layersRenderers s) (fst kv) = Some r"
    using map_of_own_entry [OF d kv(1)] by simp
  moreover have "fst kv \<in> set (map fst (layersRenderers s))" using kv(1) by simp
  ultimately show "visited s (map fst (layersRenderers s)) r"
    unfolding visited_def by blast
qed

lemma swept_all_keys:
  "distinct (map fst (layersRenderers s)) \<Longrightarrow>
   swept s (map fst (layersRenderers s)) r =
     (r \<in> set (map snd (layersRenderers s)) \<and> \<not> wasUsed (heap s r))"
  using visited_all_keys [of s r] by (auto simp: swept_def visited_def)


text \<open>In a well-formed state \<^verbatim>\<open>_cleanUnusedLayerRenderers\<close> keeps the entries marked as
  used and their drawables, clears the mark of every entry, and calls \<^verbatim>\<open>removeChild\<close>
  and the teardown for each entry that is not marked.\<close>

lemma clean_layersRenderers:
  assumes "well_formed s"
  shows "layersRenderers (cleanUnusedLayerRenderers s) =
           filter (\<lambda>(k, r). wasUsed (heap s r)) (layersRenderers s)"
proof -
  have "layersRenderers (cleanUnusedLayerRenderers s) =
          filter (\<lambda>(k, r). k \<notin> set (map fst (layersRenderers s)) \<or> wasUsed (heap s r))
            (layersRenderers s)"
    using assms unfolding clean_own_keys well_formed_def
    by (intro clean_keys_layersRenderers) simp_all
  also have "\<dots> = filter (\<lambda>(k, r). wasUsed (heap s r)) (layersRenderers s)"
    by (rule filter_cong [OF refl]) (auto simp: rev_image_eqI)
  finally show ?thesis .
qed

lemma clean_pixiChildren:
  assumes "well_formed s"
  shows "pixiChildren (cleanUnusedLayerRenderers s) =
           filter (\<lambda>c. wasUsed (heap s c)) (pixiChildren s)"
proof -
  have d: "distinct (map fst (layersRenderers s))" using assms by (simp add: well_formed_def)
  have "pixiChildren (cleanUnusedLayerRenderers s) =
          filter (\<lambda>c. \<not> swept s (map fst (layersRenderers s)) c) (pixiChildren s)"
    using assms unfolding clean_own_keys well_formed_def
    by (intro clean_keys_pixiChildren) simp_all
  also have "\<dots> = filter (\<lambda>c. wasUsed (heap s c)) (pixiChildren s)"
  proof (rule filter_cong [OF refl])
    fix c assume "c \<in> set (pixiChildren s)"
    then have "c \<in> set (map snd (layersRenderers s))"
      using assms unfolding well_formed_def by blast
    then show "(\<not> swept s (map fst (layersRenderers s)) c) = wasUsed (heap s c)"
      by (simp only: swept_all_keys [OF d]) simp
  qed
  finally show ?thesis .
qed

lemma clean_heap:
  assumes "well_formed s"
  shows "heap (cleanUnusedLayerRenderers s) r =
           (if r \<in> set (map snd (layersRenderers s)) then (heap s r)\<lparr>wasUsed := False\<rparr>
            else heap s r)"
proof -
  have d: "distinct (map fst (layersRenderers s))" using assms by (simp add: well_formed_def)
  show ?thesis
    unfolding clean_own_keys
    by (simp only: clean_keys_heap [OF d] visited_all_keys [OF d])
qed

lemma clean_calls:
  assumes "well_formed s"
  shows "calls (cleanUnusedLayerRenderers s) =
           calls s @ concat (map (\<lambda>kv. if wasUsed (heap s (snd kv)) then []
                                        else [RemoveChild (snd kv), LayerDelete (snd kv)])
                                 (layersRenderers s))"
proof -
  have d: "distinct (map fst (layersRenderers s))" using assms by (simp add: well_formed_def)
  have c: "calls (cleanUnusedLayerRenderers s) =
          calls s @ concat (map (sweep_calls s) (map fst (layersRenderers s)))"
    using assms unfolding clean_own_keys well_formed_def
    by (intro clean_keys_calls) simp_all
  have m: "map (\<lambda>kv. sweep_calls s (fst kv)) (layersRenderers s) =
      map (\<lambda>kv. if wasUsed (heap s (snd kv)) then []
                else [RemoveChild (snd kv), LayerDelete (snd kv)]) (layersRenderers s)"
    by (rule map_cong [OF refl]) (simp add: sweep_calls_def map_of_own_entry [OF d])
  show ?thesis
    by (simp only: c map_map comp_def m)
qed

lemma clean_nextRef [simp]: "nextRef (cleanUnusedLayerRenderers s) = nextRef s"
  by (simp add: clean_own_keys)

lemma well_formed_clean:
  assumes "well_formed s"
  shows "well_formed (cleanUnusedLayerRenderers s)"
proof -
  let ?M = "layersRenderers s"
  let ?live = "\<lambda>r. wasUsed (heap s r)"
  have vals: "map snd (filter (\<lambda>(k, r). ?live r) ?M) = filter ?live (map snd ?M)"
    by (simp add: filter_map comp_def case_prod_unfold)
  have ch: "set (filter ?live (pixiChildren s)) = set (filter ?live (map snd ?M))"
    using assms unfolding well_formed_def by (simp only: set_filter)
  have bound: "\<forall>r \<in> set (filter ?live (map snd ?M)). r < nextRef s"
    using assms by (auto simp: well_formed_def)
  have "distinct (map fst (filter (\<lambda>(k, r). ?live r) ?M))"
    using assms by (simp add: well_formed_def distinct_map_filter_fst)
  moreover have "distinct (filter ?live (map snd ?M))" "distinct (filter ?live (pixiChildren s))"
    using assms by (simp_all add: well_formed_def)
  ultimately show ?thesis
    unfolding well_formed_def clean_layersRenderers [OF assms] clean_pixiChildren [OF assms]
      vals clean_nextRef
    using ch bound by blast
qed

lemma idle_clean:
  assumes "well_formed s" and "prototypeAdded s = []"
  shows "idle (cleanUnusedLayerRenderers s)"
proof -
  have "set (map snd (layersRenderers (cleanUnusedLayerRenderers s))) \<subseteq> set (map snd (layersRenderers s))"
    by (auto simp: clean_layersRenderers [OF assms(1)])
  then show ?thesis
    unfolding idle_def using assms(2) by (auto simp: clean_heap [OF assms(1)])
qed

lemma clean_values_subset:
  assumes "well_formed s"
  shows "set (map snd (layersRenderers (cleanUnusedLayerRenderers s))) \<subseteq>
           set (map snd (layersRenderers s))"
  unfolding clean_layersRenderers [OF assms] by auto


subsection \<open>The invariant\<close>

text \<open>Every operation keeps the bookkeeping invariant, whatever the layer names and
  whether or not \<^verbatim>\<open>render\<close> throws.\<close>

lemma well_formed_constructor: "well_formed constructor"
  by (simp add: well_formed_def constructor_def)

lemma idle_constructor: "idle constructor"
  by (simp add: idle_def constructor_def)

lemma well_formed_render_layers:
  "well_formed s \<Longrightarrow> well_formed (snd (render_layers i ls s))"
proof (induction ls arbitrary: i s)
  case Nil
  then show ?case by simp
next
  case (Cons l ls)
  from render_layer_result [of i l s] show ?case
  proof
    assume "render_layer i l s = (Normal, visit i l s)"
    then show ?thesis using Cons.IH [OF well_formed_visit [OF Cons.prems]] by simp
  next
    assume "render_layer i l s = (Throw TypeError, foreign_writes (getName l) s)"
    then show ?thesis using Cons.prems by (simp add: well_formed_def)
  qed
qed

lemma well_formed_render: "well_formed s \<Longrightarrow> well_formed (snd (render ls s))"
proof -
  assume wf: "well_formed s"
  obtain c t where r: "render_layers 0 ls s = (c, t)" by (cases "render_layers 0 ls s")
  have "well_formed t" using well_formed_render_layers [OF wf, of 0 ls] r by simp
  then show ?thesis
    using r by (cases c) (simp_all add: render_def well_formed_sort well_formed_clean)
qed

lemma well_formed_renders: "well_formed s \<Longrightarrow> well_formed (snd (renders lss s))"
proof (induction lss arbitrary: s)
  case Nil
  then show ?case by simp
next
  case (Cons ls lss)
  obtain c s' where r: "render ls s = (c, s')" by (cases "render ls s")
  have "well_formed s'" using well_formed_render [OF Cons.prems, of ls] r by simp
  then show ?case using r Cons.IH [of s'] by (cases c) simp_all
qed

lemma well_formed_reset: "well_formed s \<Longrightarrow> well_formed (resetInstanceRenderersFor n s)"
  by (simp add: well_formed_def reset_closed)

text \<open>\<^verbatim>\<open>delete()\<close> keeps the mapping; the children of the destroyed container are gone.\<close>

lemma delete_keeps_mapping:
  "distinct (map fst (layersRenderers s)) \<Longrightarrow>
   layersRenderers (delete s) = layersRenderers s \<and> pixiChildren (delete s) = []"
  by (simp add: delete_closed)


text \<open>A reference is never handed out twice: a layer renderer that has left the mapping
  never comes back.\<close>

lemma visit_values_fresh:
  "set (map snd (layersRenderers (visit i l s))) \<subseteq>
     set (map snd (layersRenderers s)) \<union> {r. nextRef s \<le> r}"
  unfolding visit_values_set by auto

lemma render_layers_values_fresh:
  "set (map snd (layersRenderers (snd (render_layers i ls s)))) \<subseteq>
     set (map snd (layersRenderers s)) \<union> {r. nextRef s \<le> r}
   \<and> nextRef s \<le> nextRef (snd (render_layers i ls s))"
proof (induction ls arbitrary: i s)
  case Nil
  then show ?case by simp
next
  case (Cons l ls)
  from render_layer_result [of i l s] show ?case
  proof
    assume n: "render_layer i l s = (Normal, visit i l s)"
    let ?s1 = "visit i l s"
    let ?t = "snd (render_layers (Suc i) ls ?s1)"
    have eq: "snd (render_layers i (l # ls) s) = ?t" using n by simp
    have a: "set (map snd (layersRenderers ?t)) \<subseteq>
               set (map snd (layersRenderers ?s1)) \<union> {r. nextRef ?s1 \<le> r}"
      and b: "nextRef ?s1 \<le> nextRef ?t"
      using Cons.IH [of "Suc i" ?s1] by blast+
    have c: "nextRef s \<le> nextRef ?s1" by (simp add: visit_nextRef)
    then have d: "{r. nextRef ?s1 \<le> r} \<subseteq> {r. nextRef s \<le> r}" by auto
    have "set (map snd (layersRenderers ?t)) \<subseteq>
            set (map snd (layersRenderers s)) \<union> {r. nextRef s \<le> r}"
      using a d visit_values_fresh [of i l s] by blast
    moreover have "nextRef s \<le> nextRef ?t" using b c by (rule le_trans [rotated])
    ultimately show ?thesis by (simp only: eq) 
  next
    assume "render_layer i l s = (Throw TypeError, foreign_writes (getName l) s)"
    then show ?thesis by simp
  qed
qed

lemma render_values_fresh:
  assumes "well_formed s"
  shows "set (map snd (layersRenderers (snd (render ls s)))) \<subseteq>
           set (map snd (layersRenderers s)) \<union> {r. nextRef s \<le> r}"
    and "nextRef s \<le> nextRef (snd (render ls s))"
proof -
  obtain c t where r: "render_layers 0 ls s = (c, t)" by (cases "render_layers 0 ls s")
  have t: "set (map snd (layersRenderers t)) \<subseteq> set (map snd (layersRenderers s)) \<union> {r. nextRef s \<le> r}"
    "nextRef s \<le> nextRef t"
    using render_layers_values_fresh [of 0 ls s] unfolding r snd_conv by blast+
  have wft: "well_formed t" using well_formed_render_layers [OF assms, of 0 ls] r by simp
  have v: "snd (render ls s) = t \<or>
           snd (render ls s) = cleanUnusedLayerRenderers (updatePixiObjectsZOrder t)"
    using r by (cases c) (simp_all add: render_def)
  have cl: "set (map snd (layersRenderers (cleanUnusedLayerRenderers (updatePixiObjectsZOrder t))))
        \<subseteq> set (map snd (layersRenderers t))"
    using clean_values_subset [OF well_formed_sort [OF wft]] by (simp only: sort_layersRenderers)
  have "set (map snd (layersRenderers (snd (render ls s)))) \<subseteq> set (map snd (layersRenderers t))"
  proof (rule disjE [OF v])
    assume e: "snd (render ls s) = t"
    show ?thesis unfolding e by (rule subset_refl)
  next
    assume e: "snd (render ls s) = cleanUnusedLayerRenderers (updatePixiObjectsZOrder t)"
    show ?thesis unfolding e by (rule cl)
  qed
  with t(1) show "set (map snd (layersRenderers (snd (render ls s)))) \<subseteq>
           set (map snd (layersRenderers s)) \<union> {r. nextRef s \<le> r}" by blast
  show "nextRef s \<le> nextRef (snd (render ls s))"
    using v t(2) by auto
qed

lemma render_never_reuses_reference:
  assumes "well_formed s" "r < nextRef s" "r \<notin> set (map snd (layersRenderers s))"
  shows "r < nextRef (snd (render ls s)) \<and> r \<notin> set (map snd (layersRenderers (snd (render ls s))))"
proof -
  have "r \<notin> {r. nextRef s \<le> r}" using assms(2) by simp
  then have "r \<notin> set (map snd (layersRenderers (snd (render ls s))))"
    using render_values_fresh(1) [OF assms(1), of ls] assms(3) by blast
  moreover have "r < nextRef (snd (render ls s))"
    using render_values_fresh(2) [OF assms(1), of ls] assms(2) by simp
  ultimately show ?thesis by simp
qed

lemma renders_never_reuse_reference:
  "well_formed s \<Longrightarrow> r < nextRef s \<Longrightarrow> r \<notin> set (map snd (layersRenderers s)) \<Longrightarrow>
   r < nextRef (snd (renders lss s)) \<and> r \<notin> set (map snd (layersRenderers (snd (renders lss s))))"
proof (induction lss arbitrary: s)
  case Nil
  then show ?case by simp
next
  case (Cons ls lss)
  obtain c s' where r: "render ls s = (c, s')" by (cases "render ls s")
  have s': "well_formed s'" "r < nextRef s'" "r \<notin> set (map snd (layersRenderers s'))"
    using well_formed_render [OF Cons.prems(1), of ls]
      render_never_reuses_reference [OF Cons.prems, of ls] r by simp_all
  show ?case using r s' Cons.IH [OF s'] by (cases c) simp_all
qed


subsection \<open>A pass over ordinary layer names\<close>

text \<open>
  The lemmas of this subsection are about a pass that starts in a well-formed, idle
  state on a layout whose layer names are pairwise distinct and ordinary.  Such a pass
  completes.
\<close>

lemma idle_pristine: "idle s \<Longrightarrow> prototypeAdded s = []"
  by (simp add: idle_def)

lemma render_ordinary:
  "prototypeAdded s = [] \<Longrightarrow> ordinary_names ls \<Longrightarrow>
   render ls s = (Normal, cleanUnusedLayerRenderers (updatePixiObjectsZOrder (visits 0 ls s)))"
  by (simp add: render_def render_layers_ordinary)

lemma render_layersRenderers:
  assumes "well_formed s" "idle s" "distinct (map getName ls)" "ordinary_names ls"
  shows "layersRenderers (snd (render ls s)) =
           filter (\<lambda>(k, r). k \<in> getName ` set ls) (layersRenderers (visits 0 ls s))"
proof -
  let ?t = "visits 0 ls s"
  let ?u = "updatePixiObjectsZOrder ?t"
  have wfu: "well_formed ?u" using assms(1) by (intro well_formed_sort well_formed_visits)
  have "layersRenderers (snd (render ls s)) = filter (\<lambda>(k, r). wasUsed (heap ?u r)) (layersRenderers ?u)"
    by (simp add: render_ordinary [OF idle_pristine [OF assms(2)] assms(4)] clean_layersRenderers [OF wfu])
  also have "\<dots> = filter (\<lambda>(k, r). k \<in> getName ` set ls) (layersRenderers ?t)"
    unfolding sort_layersRenderers sort_wasUsed
    by (rule filter_cong [OF refl]) (auto simp: visits_flags [OF assms(1,2,3)])
  finally show ?thesis .
qed


text \<open>The mapping then has exactly one entry per layer of the layout, and the pass ends in
  a well-formed, idle state: no entry is marked as used.\<close>

lemma render_mapping_matches_layout:
  assumes "well_formed s" "idle s" "distinct (map getName ls)" "ordinary_names ls"
  shows "fst (render ls s) = Normal"
    and "set (map fst (layersRenderers (snd (render ls s)))) = getName ` set ls"
    and "length (layersRenderers (snd (render ls s))) = length ls"
    and "well_formed (snd (render ls s))"
    and "idle (snd (render ls s))"
proof -
  let ?t = "visits 0 ls s"
  let ?u = "updatePixiObjectsZOrder ?t"
  let ?v = "snd (render ls s)"
  have wfu: "well_formed ?u" using assms(1) by (intro well_formed_sort well_formed_visits)
  show "fst (render ls s) = Normal" by (simp add: render_ordinary [OF idle_pristine [OF assms(2)] assms(4)])
  show wfv: "well_formed ?v" using assms(1) by (rule well_formed_render)
  have "prototypeAdded ?u = []" using idle_pristine [OF assms(2)] by simp
  then show "idle ?v"
    by (simp add: render_ordinary [OF idle_pristine [OF assms(2)] assms(4)] idle_clean [OF wfu])
  have "set (map fst (layersRenderers ?v)) = set (map fst (layersRenderers ?t)) \<inter> getName ` set ls"
    unfolding render_layersRenderers [OF assms] by (auto simp: rev_image_eqI)
  also have "\<dots> = getName ` set ls"
    unfolding visits_keys by blast
  finally show keys: "set (map fst (layersRenderers ?v)) = getName ` set ls" .
  have "length (layersRenderers ?v) = length (map fst (layersRenderers ?v))" by simp
  also have "\<dots> = card (set (map fst (layersRenderers ?v)))"
    using wfv unfolding well_formed_def by (metis distinct_card)
  also have "\<dots> = card (set (map getName ls))" unfolding keys by simp
  also have "\<dots> = length ls" using assms(3) distinct_card [of "map getName ls"] by simp
  finally show "length (layersRenderers ?v) = length ls" .
qed

lemma renders_ordinary:
  "well_formed s \<Longrightarrow> idle s \<Longrightarrow>
   \<forall>ls \<in> set lss. distinct (map getName ls) \<and> ordinary_names ls \<Longrightarrow>
   fst (renders lss s) = Normal \<and> well_formed (snd (renders lss s)) \<and> idle (snd (renders lss s)) \<and>
   (lss \<noteq> [] \<longrightarrow>
      set (map fst (layersRenderers (snd (renders lss s)))) = getName ` set (last lss) \<and>
      length (layersRenderers (snd (renders lss s))) = length (last lss))"
proof (induction lss arbitrary: s)
  case Nil
  then show ?case by simp
next
  case (Cons ls lss)
  have ls: "distinct (map getName ls)" "ordinary_names ls" using Cons.prems(3) by auto
  note one = render_mapping_matches_layout [OF Cons.prems(1,2) ls]
  obtain s' where r: "render ls s = (Normal, s')"
    using one(1) by (cases "render ls s") simp
  have s': "well_formed s'" "idle s'" using one(4,5) r by simp_all
  have rest: "\<forall>ls \<in> set lss. distinct (map getName ls) \<and> ordinary_names ls"
    using Cons.prems(3) by simp
  show ?case
  proof (cases "lss = []")
    case True
    then show ?thesis using one r by (simp del: set_map split: prod.splits)
  next
    case False
    then show ?thesis using Cons.IH [OF s' rest] r by simp
  qed
qed

lemma map_of_filter_keys:
  "map_of (filter (\<lambda>(k, r). P k) obj) k = (if P k then map_of obj k else None)"
  by (induction obj) auto

lemma render_map_of:
  assumes "well_formed s" "idle s" "distinct (map getName ls)" "ordinary_names ls"
  shows "map_of (layersRenderers (snd (render ls s))) k =
           (if k \<in> getName ` set ls then map_of (layersRenderers (visits 0 ls s)) k else None)"
  unfolding render_layersRenderers [OF assms] by (rule map_of_filter_keys)

lemma render_heap:
  assumes "well_formed s" "ordinary_names ls" "prototypeAdded s = []"
  shows "heap (snd (render ls s)) r =
     (if r \<in> set (map snd (layersRenderers (visits 0 ls s)))
      then (heap (updatePixiObjectsZOrder (visits 0 ls s)) r)\<lparr>wasUsed := False\<rparr>
      else heap (updatePixiObjectsZOrder (visits 0 ls s)) r)"
proof -
  have "well_formed (updatePixiObjectsZOrder (visits 0 ls s))"
    using assms(1) by (intro well_formed_sort well_formed_visits)
  then show ?thesis
    by (simp add: render_ordinary [OF assms(3) assms(2)] clean_heap)
qed

lemma render_layer_zOrder:
  assumes "well_formed s" "ordinary_names ls" "prototypeAdded s = []"
  shows "layer (heap (snd (render ls s)) r) = layer (heap (visits 0 ls s) r)"
    and "zOrder (heap (visits 0 ls s) r) = Some z \<Longrightarrow> zOrder (heap (snd (render ls s)) r) = Some z"
  by (simp_all add: render_heap [OF assms] sort_zOrder)

lemma render_touched:
  assumes "well_formed s" "idle s" "distinct (map getName ls)" "ordinary_names ls"
    and "j < length ls"
  shows "\<exists>r. map_of (layersRenderers (snd (render ls s))) (getName (ls ! j)) = Some r \<and>
             map_of (layersRenderers (visits 0 ls s)) (getName (ls ! j)) = Some r \<and>
             heap (visits 0 ls s) r = \<lparr>layer = ls ! j, wasUsed = True, zOrder = Some j\<rparr> \<and>
             heap (snd (render ls s)) r = \<lparr>layer = ls ! j, wasUsed = False, zOrder = Some j\<rparr>"
proof -
  obtain r where r: "map_of (layersRenderers (visits 0 ls s)) (getName (ls ! j)) = Some r"
    "heap (visits 0 ls s) r = \<lparr>layer = ls ! j, wasUsed = True, zOrder = Some j\<rparr>"
    using visits_touched [OF assms(1,3,5), of 0] by auto
  have "r \<in> set (map snd (layersRenderers (visits 0 ls s)))"
    using r(1) by (rule map_of_value_in)
  then have "heap (snd (render ls s)) r = \<lparr>layer = ls ! j, wasUsed = False, zOrder = Some j\<rparr>"
    by (simp add: render_heap [OF assms(1,4) idle_pristine [OF assms(2)]] updatePixiObjectsZOrder_def r(2) zOrder_or_0_def)
  moreover have "map_of (layersRenderers (snd (render ls s))) (getName (ls ! j)) = Some r"
    using r(1) assms(5) by (simp add: render_map_of [OF assms(1-4)])
  ultimately show ?thesis using r by blast
qed


text \<open>The children of the root container are the drawables of the layers' renderers, in
  the order of the layout.\<close>

lemma render_pixiChildren:
  assumes "well_formed s" "idle s" "distinct (map getName ls)" "ordinary_names ls"
  shows "map Some (pixiChildren (snd (render ls s))) =
           map (\<lambda>l. map_of (layersRenderers (snd (render ls s))) (getName l)) ls"
proof -
  let ?t = "visits 0 ls s"
  let ?u = "updatePixiObjectsZOrder ?t"
  let ?v = "snd (render ls s)"
  let ?key = "\<lambda>c. zOrder_or_0 (zOrder (heap ?t c))"
  let ?live = "\<lambda>c. wasUsed (heap ?t c)"
  let ?X = "filter ?live (pixiChildren ?t)"
  let ?R = "\<lambda>j. the (map_of (layersRenderers ?t) (getName (ls ! j)))"
  let ?Y = "map ?R [0..<length ls]"
  have wft: "well_formed ?t" using assms(1) by (rule well_formed_visits)
  have wfu: "well_formed ?u" using wft by (rule well_formed_sort)
  have touched: "map_of (layersRenderers ?t) (getName (ls ! j)) = Some (?R j) \<and>
                 heap ?t (?R j) = \<lparr>layer = ls ! j, wasUsed = True, zOrder = Some j\<rparr>"
    if "j < length ls" for j
    using visits_touched [OF assms(1,3) that, of 0] by auto
  have key: "?key (?R j) = j" if "j < length ls" for j
    using touched [OF that] by (simp add: zOrder_or_0_def)
  have "pixiChildren ?v = filter (\<lambda>c. wasUsed (heap ?u c)) (pixiChildren ?u)"
    by (simp add: render_ordinary [OF idle_pristine [OF assms(2)] assms(4)] clean_pixiChildren [OF wfu])
  also have "\<dots> = sort_key ?key ?X"
    by (simp add: sort_pixiChildren filter_sort)
  finally have ch: "pixiChildren ?v = sort_key ?key ?X" .
  have setX: "set ?X = set ?Y"
  proof (intro set_eqI iffI)
    fix c assume "c \<in> set ?X"
    then have c: "c \<in> set (map snd (layersRenderers ?t))" "?live c"
      using wft by (auto simp: well_formed_def)
    then obtain k where k: "(k, c) \<in> set (layersRenderers ?t)" by auto
    then have "k \<in> getName ` set ls"
      using visits_flags [OF assms(1,2,3) k] c(2) by simp
    then obtain j where j: "j < length ls" "k = getName (ls ! j)"
      by (auto simp: in_set_conv_nth)
    have "map_of (layersRenderers ?t) k = Some c"
      using k wft by (simp add: well_formed_def)
    then have "c = ?R j" using j(2) by simp
    then show "c \<in> set ?Y" using j(1) by auto
  next
    fix c assume "c \<in> set ?Y"
    then obtain j where j: "j < length ls" "c = ?R j" by auto
    have "c \<in> set (map snd (layersRenderers ?t))"
      using touched [OF j(1)] j(2) by (auto dest: map_of_value_in simp del: set_map)
    then have "c \<in> set (pixiChildren ?t)"
      using wft by (simp add: well_formed_def del: set_map)
    then show "c \<in> set ?X" using touched [OF j(1)] j(2) by simp
  qed
  have "map (\<lambda>j. ?key (?R j)) [0..<length ls] = map (\<lambda>j. j) [0..<length ls]"
    by (rule map_cong [OF refl]) (simp add: key)
  then have keyY: "map ?key ?Y = [0..<length ls]"
    by (simp add: comp_def)
  have inj: "inj_on ?key (set ?Y)"
  proof (rule inj_onI)
    fix a b assume "a \<in> set ?Y" "b \<in> set ?Y" "?key a = ?key b"
    then obtain i j where "i < length ls" "a = ?R i" "j < length ls" "b = ?R j" by auto
    with \<open>?key a = ?key b\<close> key show "a = b" by auto
  qed
  have dX: "distinct ?X" using wft by (simp add: well_formed_def)
  have "sort_key ?key ?X = ?Y"
  proof (rule map_sorted_distinct_set_unique [where f = ?key])
    show "inj_on ?key (set (sort_key ?key ?X) \<union> set ?Y)"
      using inj by (simp only: set_sort setX Un_absorb)
    show "sorted (map ?key (sort_key ?key ?X))" by (rule sorted_sort_key)
    show "distinct (map ?key (sort_key ?key ?X))"
      using inj dX by (simp only: distinct_map set_sort setX distinct_sort)
    show "sorted (map ?key ?Y)" by (simp only: keyY sorted_upt)
    show "distinct (map ?key ?Y)" by (simp only: keyY distinct_upt)
    show "set (sort_key ?key ?X) = set ?Y" by (simp only: set_sort setX)
  qed
  then have "pixiChildren ?v = ?Y" using ch by simp
  moreover have "map Some ?Y = map (\<lambda>l. map_of (layersRenderers ?v) (getName l)) ls"
  proof (rule nth_equalityI)
    show "length (map Some ?Y) = length (map (\<lambda>l. map_of (layersRenderers ?v) (getName l)) ls)"
      by simp
  next
    fix j assume "j < length (map Some ?Y)"
    then have j: "j < length ls" by simp
    have "map_of (layersRenderers ?v) (getName (ls ! j)) = Some (?R j)"
      using touched [OF j] j by (simp add: render_map_of [OF assms])
    then show "map Some ?Y ! j = map (\<lambda>l. map_of (layersRenderers ?v) (getName l)) ls ! j"
      using j by simp
  qed
  ultimately show ?thesis by simp
qed

lemma quiet_calls_count:
  assumes "quiet_calls n cs"
  shows "count_list cs (LayerDelete r) = 0" and "count_list cs (RemoveChild r) = 0"
    and "r < n \<Longrightarrow> count_list cs (NewLayerRenderer r l) = 0"
    and "r < n \<Longrightarrow> count_list cs (AddChild r) = 0"
  using assms by (force simp: quiet_calls_def count_list_0_iff)+

lemma sweep_count:
  assumes "distinct (map snd obj)" "(k, r) \<in> set obj"
  shows "count_list (concat (map (\<lambda>kv. if live (snd kv) then []
            else [RemoveChild (snd kv), LayerDelete (snd kv)]) obj)) (LayerDelete r)
         = (if live r then 0 else 1)"
    and "count_list (concat (map (\<lambda>kv. if live (snd kv) then []
            else [RemoveChild (snd kv), LayerDelete (snd kv)]) obj)) (RemoveChild r)
         = (if live r then 0 else 1)"
  using assms by (induction obj) (auto simp: rev_image_eqI count_list_0_iff)

lemma sweep_count_other:
  "count_list (concat (map (\<lambda>kv. if live (snd kv) then []
            else [RemoveChild (snd kv), LayerDelete (snd kv)]) obj)) (NewLayerRenderer r l) = 0"
  "count_list (concat (map (\<lambda>kv. if live (snd kv) then []
            else [RemoveChild (snd kv), LayerDelete (snd kv)]) obj)) (AddChild r) = 0"
  by (induction obj) auto

lemma render_calls:
  assumes "well_formed s" "ordinary_names ls" "prototypeAdded s = []"
  shows "\<exists>cs. quiet_calls (nextRef s) cs \<and>
           calls_since s (snd (render ls s)) =
             cs @ concat (map (\<lambda>kv. if wasUsed (heap (visits 0 ls s) (snd kv)) then []
                                      else [RemoveChild (snd kv), LayerDelete (snd kv)])
                              (layersRenderers (visits 0 ls s)))"
proof -
  let ?t = "visits 0 ls s"
  let ?u = "updatePixiObjectsZOrder ?t"
  have wfu: "well_formed ?u" using assms(1) by (intro well_formed_sort well_formed_visits)
  obtain cs where cs: "calls ?t = calls s @ cs" "quiet_calls (nextRef s) cs"
    using visits_calls_quiet by blast
  have "calls (snd (render ls s)) =
          calls s @ cs @ concat (map (\<lambda>kv. if wasUsed (heap ?t (snd kv)) then []
                                      else [RemoveChild (snd kv), LayerDelete (snd kv)])
                              (layersRenderers ?t))"
    by (simp add: render_ordinary [OF assms(3) assms(2)] clean_calls [OF wfu] cs(1))
  then show ?thesis using cs(2) by (auto simp: calls_since_def)
qed


text \<open>An entry whose name the layout no longer reports is removed: one \<^verbatim>\<open>removeChild\<close>,
  one teardown, and the entry and the drawable are gone.\<close>

lemma render_collects_absent_layer:
  assumes "well_formed s" "idle s" "distinct (map getName ls)" "ordinary_names ls"
    and "map_of (layersRenderers s) k = Some r" "k \<notin> getName ` set ls"
  shows "map_of (layersRenderers (snd (render ls s))) k = None"
    and "r \<notin> set (map snd (layersRenderers (snd (render ls s))))"
    and "r \<notin> set (pixiChildren (snd (render ls s)))"
    and "count_list (calls_since s (snd (render ls s))) (RemoveChild r) = 1"
    and "count_list (calls_since s (snd (render ls s))) (LayerDelete r) = 1"
    and "r < nextRef (snd (render ls s))"
proof -
  let ?t = "visits 0 ls s"
  let ?v = "snd (render ls s)"
  have wft: "well_formed ?t" using assms(1) by (rule well_formed_visits)
  have wfv: "well_formed ?v" using assms(1) by (rule well_formed_render)
  have krt: "map_of (layersRenderers ?t) k = Some r" using assms(5) by (rule visits_map_of_mono)
  then have mem: "(k, r) \<in> set (layersRenderers ?t)" by (rule map_of_SomeD)
  have dead: "\<not> wasUsed (heap ?t r)"
    using visits_flags [OF assms(1,2,3) mem] assms(6) by simp
  show none: "map_of (layersRenderers ?v) k = None"
    using assms(6) by (simp add: render_map_of [OF assms(1-4)])
  show notin: "r \<notin> set (map snd (layersRenderers ?v))"
  proof
    assume "r \<in> set (map snd (layersRenderers ?v))"
    then obtain k' where "(k', r) \<in> set (layersRenderers ?v)" by auto
    then have "(k', r) \<in> set (layersRenderers ?t)" "k' \<in> getName ` set ls"
      by (auto simp: render_layersRenderers [OF assms(1-4)])
    with visits_flags [OF assms(1,2,3), of k' r 0] dead show False by simp
  qed
  then show "r \<notin> set (pixiChildren ?v)"
    using wfv unfolding well_formed_def by blast
  obtain cs where cs: "quiet_calls (nextRef s) cs"
    "calls_since s ?v = cs @ concat (map (\<lambda>kv. if wasUsed (heap ?t (snd kv)) then []
                                      else [RemoveChild (snd kv), LayerDelete (snd kv)])
                              (layersRenderers ?t))"
    using render_calls [OF assms(1,4) idle_pristine [OF assms(2)]] by blast
  have dv: "distinct (map snd (layersRenderers ?t))" using wft by (simp add: well_formed_def)
  note sc = sweep_count [OF dv mem, of "\<lambda>r. wasUsed (heap ?t r)"]
  show "count_list (calls_since s ?v) (RemoveChild r) = 1"
    using dead sc(2) by (simp add: cs(2) quiet_calls_count [OF cs(1)])
  show "count_list (calls_since s ?v) (LayerDelete r) = 1"
    using dead sc(1) by (simp add: cs(2) quiet_calls_count [OF cs(1)])
  have "r < nextRef s"
    using assms(1,5) by (rule well_formed_bound)
  also have "\<dots> \<le> nextRef ?t" by (rule visits_nextRef_mono)
  finally show "r < nextRef ?v" by (simp add: render_ordinary [OF idle_pristine [OF assms(2)] assms(4)])
qed


text \<open>An entry whose name the layout reports is kept, with the layer object of this pass;
  nothing is constructed, removed or torn down for it.  A name without entry gets a
  newly constructed layer renderer.\<close>

lemma render_reuses_and_rebinds:
  assumes "well_formed s" "idle s" "distinct (map getName ls)" "ordinary_names ls"
    and "l \<in> set ls" "map_of (layersRenderers s) (getName l) = Some r"
  shows "map_of (layersRenderers (snd (render ls s))) (getName l) = Some r"
    and "layer (heap (snd (render ls s)) r) = l"
    and "r \<in> set (pixiChildren (snd (render ls s)))"
    and "count_list (calls_since s (snd (render ls s))) (NewLayerRenderer r l') = 0"
    and "count_list (calls_since s (snd (render ls s))) (AddChild r) = 0"
    and "count_list (calls_since s (snd (render ls s))) (RemoveChild r) = 0"
    and "count_list (calls_since s (snd (render ls s))) (LayerDelete r) = 0"
proof -
  let ?t = "visits 0 ls s"
  let ?v = "snd (render ls s)"
  have wft: "well_formed ?t" using assms(1) by (rule well_formed_visits)
  have wfv: "well_formed ?v" using assms(1) by (rule well_formed_render)
  obtain j where j: "j < length ls" "l = ls ! j" using assms(5) by (auto simp: in_set_conv_nth)
  have krt: "map_of (layersRenderers ?t) (getName l) = Some r"
    using assms(6) by (rule visits_map_of_mono)
  then have mem: "(getName l, r) \<in> set (layersRenderers ?t)" by (rule map_of_SomeD)
  obtain r' where r': "map_of (layersRenderers ?v) (getName (ls ! j)) = Some r'"
    "map_of (layersRenderers ?t) (getName (ls ! j)) = Some r'"
    "heap ?t r' = \<lparr>layer = ls ! j, wasUsed = True, zOrder = Some j\<rparr>"
    "heap ?v r' = \<lparr>layer = ls ! j, wasUsed = False, zOrder = Some j\<rparr>"
    using render_touched [OF assms(1-4) j(1)] by blast
  have same: "r' = r" using krt r'(2) j(2) by simp
  show kv: "map_of (layersRenderers ?v) (getName l) = Some r" using r'(1) same j(2) by simp
  show "layer (heap ?v r) = l" using r'(4) same j(2) by simp
  have "r \<in> set (map snd (layersRenderers ?v))" using kv by (rule map_of_value_in)
  then show "r \<in> set (pixiChildren ?v)"
    using wfv unfolding well_formed_def by blast
  obtain cs where cs: "quiet_calls (nextRef s) cs"
    "calls_since s ?v = cs @ concat (map (\<lambda>kv. if wasUsed (heap ?t (snd kv)) then []
                                      else [RemoveChild (snd kv), LayerDelete (snd kv)])
                              (layersRenderers ?t))"
    using render_calls [OF assms(1,4) idle_pristine [OF assms(2)]] by blast
  have old: "r < nextRef s"
    using assms(1,6) by (rule well_formed_bound)
  have live: "wasUsed (heap ?t r)" using r'(3) same by simp
  have dv: "distinct (map snd (layersRenderers ?t))" using wft by (simp add: well_formed_def)
  show "count_list (calls_since s ?v) (NewLayerRenderer r l') = 0"
    by (simp add: cs(2) quiet_calls_count(3) [OF cs(1) old] sweep_count_other)
  show "count_list (calls_since s ?v) (AddChild r) = 0"
    by (simp add: cs(2) quiet_calls_count(4) [OF cs(1) old] sweep_count_other)
  note sc = sweep_count [OF dv mem, of "\<lambda>r. wasUsed (heap ?t r)"]
  show "count_list (calls_since s ?v) (RemoveChild r) = 0"
    using live sc(2) by (simp add: cs(2) quiet_calls_count [OF cs(1)])
  show "count_list (calls_since s ?v) (LayerDelete r) = 0"
    using live sc(1) by (simp add: cs(2) quiet_calls_count [OF cs(1)])
qed

lemma render_creates_for_new_name:
  assumes "well_formed s" "idle s" "distinct (map getName ls)" "ordinary_names ls"
    and "l \<in> set ls" "map_of (layersRenderers s) (getName l) = None"
  shows "\<exists>r. map_of (layersRenderers (snd (render ls s))) (getName l) = Some r \<and>
             nextRef s \<le> r \<and> NewLayerRenderer r l \<in> set (calls_since s (snd (render ls s))) \<and>
             layer (heap (snd (render ls s)) r) = l"
proof -
  let ?t = "visits 0 ls s"
  let ?u = "updatePixiObjectsZOrder ?t"
  let ?v = "snd (render ls s)"
  have wfu: "well_formed ?u" using assms(1) by (intro well_formed_sort well_formed_visits)
  obtain r cs where r: "calls ?t = calls s @ cs" "NewLayerRenderer r l \<in> set cs"
    "map_of (layersRenderers ?t) (getName l) = Some r" "nextRef s \<le> r"
    using visits_creates [OF assms(3,5,6), of 0] by blast
  obtain j where j: "j < length ls" "l = ls ! j" using assms(5) by (auto simp: in_set_conv_nth)
  have "NewLayerRenderer r l \<in> set (calls_since s ?v)"
    using r(1,2) by (simp add: render_ordinary [OF idle_pristine [OF assms(2)] assms(4)] clean_calls [OF wfu] calls_since_def)
  moreover have "map_of (layersRenderers ?v) (getName l) = Some r"
    using r(3) assms(5) by (simp add: render_map_of [OF assms(1-4)])
  moreover have "layer (heap ?v r) = l"
    using render_touched [OF assms(1-4) j(1)] r(3) j(2) by auto
  ultimately show ?thesis using r(4) by blast
qed


subsection \<open>The example scenario\<close>

text \<open>Layers \<^verbatim>\<open>["Background", "Main"]\<close>, then \<^verbatim>\<open>["Main"]\<close> with a new layer object: the
  second pass keeps the entry of \<^verbatim>\<open>Main\<close> with \<^verbatim>\<open>zOrder\<close> 0 and the new layer object, and
  removes the entry and the drawable of \<^verbatim>\<open>Background\<close>.\<close>

lemma example_scenario:
  "fst (render [\<lparr>getName = ''Main'', layerRef = 3\<rparr>] two_layer_scene) = Normal"
  "layersRenderers (snd (render [\<lparr>getName = ''Main'', layerRef = 3\<rparr>] two_layer_scene))
     = [(''Main'', 1)]"
  "pixiChildren (snd (render [\<lparr>getName = ''Main'', layerRef = 3\<rparr>] two_layer_scene)) = [1]"
  "heap (snd (render [\<lparr>getName = ''Main'', layerRef = 3\<rparr>] two_layer_scene)) 1
     = \<lparr>layer = \<lparr>getName = ''Main'', layerRef = 3\<rparr>, wasUsed = False, zOrder = Some 0\<rparr>"
  "calls_since two_layer_scene (snd (render [\<lparr>getName = ''Main'', layerRef = 3\<rparr>] two_layer_scene))
     = [LayerRender 1, RemoveChild 0, LayerDelete 0]"
  by (simp_all add: two_layer_scene_def eval_defs calls_since_def)

text \<open>Layers named by numerals are enumerated first, in numeric order: after a pass on
  \<^verbatim>\<open>["b", "10", "9"]\<close> the loops visit \<^verbatim>\<open>"9"\<close>, \<^verbatim>\<open>"10"\<close>, \<^verbatim>\<open>"b"\<close>.\<close>

lemma numeral_names_enumerated_first:
  "for_in_keys (prototypeAdded (snd (render
       [\<lparr>getName = ''b'', layerRef = 1\<rparr>, \<lparr>getName = ''10'', layerRef = 2\<rparr>,
        \<lparr>getName = ''9'', layerRef = 3\<rparr>] constructor)))
     (layersRenderers (snd (render
       [\<lparr>getName = ''b'', layerRef = 1\<rparr>, \<lparr>getName = ''10'', layerRef = 2\<rparr>,
        \<lparr>getName = ''9'', layerRef = 3\<rparr>] constructor))) = [''9'', ''10'', ''b'']"
  "pixiChildren (snd (render
       [\<lparr>getName = ''b'', layerRef = 1\<rparr>, \<lparr>getName = ''10'', layerRef = 2\<rparr>,
        \<lparr>getName = ''9'', layerRef = 3\<rparr>] constructor)) = [0, 1, 2]"
  by (simp_all add: eval_defs)

lemma two_layer_scene_well_formed: "well_formed two_layer_scene \<and> idle two_layer_scene"
proof -
  have "distinct (map getName [background_layer, main_layer])"
    "ordinary_names [background_layer, main_layer]"
    by (simp_all add: ordinary_names_def background_layer_def main_layer_def
          object_prototype_keys_def)
  from render_mapping_matches_layout(4,5) [OF well_formed_constructor idle_constructor this]
  show ?thesis by (simp add: two_layer_scene_def)
qed

subsection \<open>Layers named like a property of Object.prototype\<close>

text \<open>
  The lemmas above need the layer names to be ordinary.  A layer may bear any name;
  when the name is that of a property that the object \<^verbatim>\<open>layersRenderers\<close> inherits, the
  read at the head of the loop body finds the inherited value, and the pass ends in a
  \<^verbatim>\<open>TypeError\<close> before the sort and the removal of the unused layer renderers.  The
  loops over \<^verbatim>\<open>layersRenderers\<close> in the same class test \<^verbatim>\<open>hasOwnProperty\<close>; this read
  does not.
\<close>

text \<open>No own property of \<^verbatim>\<open>layersRenderers\<close> ever bears such a name, and a pass that
  starts while \<^verbatim>\<open>Object.prototype\<close> has only the properties of the language completes
  exactly when the names of all its layers are ordinary.\<close>

lemma render_layer_keys_ordinary:
  assumes "set (map fst (layersRenderers s)) \<inter> set object_prototype_keys = {}"
  shows "set (map fst (layersRenderers (snd (render_layer i l s)))) \<inter> set object_prototype_keys = {}"
  using render_layer_result [of i l s]
proof
  assume r: "render_layer i l s = (Normal, visit i l s)"
  have "getName l \<notin> set object_prototype_keys"
  proof
    assume inh: "getName l \<in> set object_prototype_keys"
    then have "map_of (layersRenderers s) (getName l) = None"
      using assms by (auto simp: map_of_None_keys simp del: set_map)
    then have "render_layer i l s = (Throw TypeError, foreign_writes (getName l) s)"
      using inh by (simp add: render_layer_def js_get_def prototype_keys_def)
    with r show False by simp
  qed
  then have "set (map fst (layersRenderers (visit i l s))) \<inter> set object_prototype_keys = {}"
    using assms unfolding visit_keys_set by blast
  then show ?thesis by (simp only: r snd_conv)
next
  assume "render_layer i l s = (Throw TypeError, foreign_writes (getName l) s)"
  then show ?thesis using assms by simp
qed

lemma render_layers_keys_ordinary:
  "set (map fst (layersRenderers s)) \<inter> set object_prototype_keys = {} \<Longrightarrow>
   set (map fst (layersRenderers (snd (render_layers i ls s)))) \<inter> set object_prototype_keys = {}"
proof (induction ls arbitrary: i s)
  case Nil
  then show ?case by simp
next
  case (Cons l ls)
  obtain c s1 where r: "render_layer i l s = (c, s1)" by (cases "render_layer i l s")
  have s1: "set (map fst (layersRenderers s1)) \<inter> set object_prototype_keys = {}"
    using render_layer_keys_ordinary [OF Cons.prems, of i l] r by simp
  show ?case
    using r s1 Cons.IH [OF s1, of "Suc i"] by (cases c) simp_all
qed

lemma render_keys_ordinary:
  assumes "well_formed s"
    and "set (map fst (layersRenderers s)) \<inter> set object_prototype_keys = {}"
  shows "set (map fst (layersRenderers (snd (render ls s)))) \<inter> set object_prototype_keys = {}"
proof -
  obtain c t where r: "render_layers 0 ls s = (c, t)" by (cases "render_layers 0 ls s")
  have t: "set (map fst (layersRenderers t)) \<inter> set object_prototype_keys = {}"
    using render_layers_keys_ordinary [OF assms(2), of 0 ls] r by simp
  have wft: "well_formed t" using well_formed_render_layers [OF assms(1), of 0 ls] r by simp
  have "set (map fst (layersRenderers (cleanUnusedLayerRenderers (updatePixiObjectsZOrder t))))
        \<subseteq> set (map fst (layersRenderers t))"
    unfolding clean_layersRenderers [OF well_formed_sort [OF wft]] by auto
  with t have "set (map fst (layersRenderers (cleanUnusedLayerRenderers (updatePixiObjectsZOrder t))))
        \<inter> set object_prototype_keys = {}" by blast
  with t show ?thesis
    using r by (cases c) (simp_all add: render_def del: set_map)
qed

lemma render_layers_completes_iff:
  "set (map fst (layersRenderers s)) \<inter> set object_prototype_keys = {} \<Longrightarrow>
   prototypeAdded s = [] \<Longrightarrow>
   (fst (render_layers i ls s) = Normal) = ordinary_names ls"
proof (induction ls arbitrary: i s)
  case Nil
  then show ?case by (simp add: ordinary_names_def)
next
  case (Cons l ls)
  show ?case
  proof (cases "getName l \<in> set object_prototype_keys")
    case True
    then have "map_of (layersRenderers s) (getName l) = None"
      using Cons.prems(1) by (auto simp: map_of_None_keys simp del: set_map)
    then have "render_layer i l s = (Throw TypeError, foreign_writes (getName l) s)"
      using True by (simp add: render_layer_def js_get_def prototype_keys_def)
    then show ?thesis using True by (simp add: ordinary_names_def)
  next
    case False
    then have "getName l \<notin> set (prototype_keys s)"
      using Cons.prems(2) by (simp add: prototype_keys_def)
    then have r: "render_layer i l s = (Normal, visit i l s)" by (rule render_layer_ordinary)
    have k: "set (map fst (layersRenderers (visit i l s))) \<inter> set object_prototype_keys = {}"
      using Cons.prems(1) False unfolding visit_keys_set by blast
    have p: "prototypeAdded (visit i l s) = []" using Cons.prems(2) by simp
    from Cons.IH [OF k p, of "Suc i"] show ?thesis
      using r False by (simp add: ordinary_names_def)
  qed
qed

lemma render_completes_iff:
  "set (map fst (layersRenderers s)) \<inter> set object_prototype_keys = {} \<Longrightarrow>
   prototypeAdded s = [] \<Longrightarrow>
   (fst (render ls s) = Normal) = ordinary_names ls"
  using render_layers_completes_iff [of s 0 ls]
  by (cases "render_layers 0 ls s") (auto simp: render_def split: completion.splits)

text \<open>
  A pass on a layer named \<^verbatim>\<open>__proto__\<close> reads \<^verbatim>\<open>Object.prototype\<close> itself, writes
  \<^verbatim>\<open>layer\<close> and \<^verbatim>\<open>wasUsed\<close> to it and throws.  From then on these two names are
  inherited by \<^verbatim>\<open>layersRenderers\<close> too: a pass on a layer named \<^verbatim>\<open>layer\<close> throws, and so
  does a measurer query for an instance on a layer named \<^verbatim>\<open>wasUsed\<close>; the loops over
  the own properties skip the two names.
\<close>

lemma proto_layer_writes_to_prototype:
  "render [\<lparr>getName = ''__proto__'', layerRef = 1\<rparr>] constructor
     = (Throw TypeError, constructor\<lparr>prototypeAdded := [''layer'', ''wasUsed'']\<rparr>)"
  "fst (render [\<lparr>getName = ''layer'', layerRef = 2\<rparr>]
          (snd (render [\<lparr>getName = ''__proto__'', layerRef = 1\<rparr>] constructor)))
     = Throw TypeError"
  "fst (render [\<lparr>getName = ''layer'', layerRef = 2\<rparr>] constructor) = Normal"
  "getInstanceLeft g (snd (render [\<lparr>getName = ''__proto__'', layerRef = 1\<rparr>] constructor))
     \<lparr>getLayer = ''wasUsed'', getX = 10, getY = 20, hasCustomSize = False,
      getCustomWidth = 0, getCustomHeight = 0\<rparr> = Inl TypeError"
  "calls (delete (snd (render [\<lparr>getName = ''__proto__'', layerRef = 1\<rparr>] constructor)))
     = [ContainerDestroy]"
  by (simp_all add: eval_defs getInstanceLeft_def delete_def delete_key_def)

text \<open>
  Claim C1 says that after any \<^verbatim>\<open>render()\<close> on a layout with pairwise distinct layer
  names the mapping has one entry per reported layer.  On a new \<^verbatim>\<open>InstancesRenderer\<close>
  and the layout of the one layer \<^verbatim>\<open>constructor\<close>, \<^verbatim>\<open>render()\<close> throws and leaves the
  mapping empty, while the layout reports one layer.
\<close>

theorem render_throws_on_inherited_layer_name:
  "distinct (map getName [\<lparr>getName = ''constructor'', layerRef = 1\<rparr>])
   \<and> fst (render [\<lparr>getName = ''constructor'', layerRef = 1\<rparr>] constructor) = Throw TypeError
   \<and> layersRenderers (snd (render [\<lparr>getName = ''constructor'', layerRef = 1\<rparr>] constructor)) = []
   \<and> length [\<lparr>getName = ''constructor'', layerRef = 1\<rparr>] = 1"
  by (simp add: eval_defs)

text \<open>
  Claim C2 says that after every \<^verbatim>\<open>render()\<close> the drawable of the layer at position \<open>i\<close>
  precedes the drawable of the layer at position \<open>j\<close> in the children of the root
  container, for \<open>i < j\<close>.  After a pass on \<^verbatim>\<open>["a", "b"]\<close>, the pass on
  \<^verbatim>\<open>["b", "a", "toString"]\<close> throws at the third layer, before the sort: the children
  stay in the order of the first pass, so the drawable \<open>1\<close> of the layer \<^verbatim>\<open>b\<close> at position
  0 follows the drawable \<open>0\<close> of the layer \<^verbatim>\<open>a\<close> at position 1.
\<close>

theorem children_unsorted_after_throwing_pass:
  "fst (renders [[\<lparr>getName = ''a'', layerRef = 1\<rparr>, \<lparr>getName = ''b'', layerRef = 2\<rparr>],
                 [\<lparr>getName = ''b'', layerRef = 2\<rparr>, \<lparr>getName = ''a'', layerRef = 1\<rparr>,
                  \<lparr>getName = ''toString'', layerRef = 3\<rparr>]] constructor) = Throw TypeError
   \<and> pixiChildren (snd (renders
                [[\<lparr>getName = ''a'', layerRef = 1\<rparr>, \<lparr>getName = ''b'', layerRef = 2\<rparr>],
                 [\<lparr>getName = ''b'', layerRef = 2\<rparr>, \<lparr>getName = ''a'', layerRef = 1\<rparr>,
                  \<lparr>getName = ''toString'', layerRef = 3\<rparr>]] constructor)) = [0, 1]
   \<and> layersRenderers (snd (renders
                [[\<lparr>getName = ''a'', layerRef = 1\<rparr>, \<lparr>getName = ''b'', layerRef = 2\<rparr>],
                 [\<lparr>getName = ''b'', layerRef = 2\<rparr>, \<lparr>getName = ''a'', layerRef = 1\<rparr>,
                  \<lparr>getName = ''toString'', layerRef = 3\<rparr>]] constructor))
       = [(''a'', 0), (''b'', 1)]"
  by (simp add: eval_defs)

text \<open>
  Claim C3 says that the entry of a layer name present in pass N and absent in pass N+1
  is torn down, removed from the root container and deleted from the mapping by the
  end of pass N+1.  After a pass on \<^verbatim>\<open>["Background"]\<close>, the pass on \<^verbatim>\<open>["toString"]\<close>
  throws before the removal of the unused layer renderers: the entry of
  \<^verbatim>\<open>Background\<close> and its drawable are still there, and neither \<^verbatim>\<open>removeChild\<close> nor the
  teardown has been called.
\<close>

theorem absent_layer_kept_by_throwing_pass:
  "fst (renders [[\<lparr>getName = ''Background'', layerRef = 1\<rparr>],
                 [\<lparr>getName = ''toString'', layerRef = 2\<rparr>]] constructor) = Throw TypeError
   \<and> layersRenderers (snd (renders [[\<lparr>getName = ''Background'', layerRef = 1\<rparr>],
                 [\<lparr>getName = ''toString'', layerRef = 2\<rparr>]] constructor)) = [(''Background'', 0)]
   \<and> pixiChildren (snd (renders [[\<lparr>getName = ''Background'', layerRef = 1\<rparr>],
                 [\<lparr>getName = ''toString'', layerRef = 2\<rparr>]] constructor)) = [0]
   \<and> calls (snd (renders [[\<lparr>getName = ''Background'', layerRef = 1\<rparr>],
                 [\<lparr>getName = ''toString'', layerRef = 2\<rparr>]] constructor))
       = [NewLayerRenderer 0 \<lparr>getName = ''Background'', layerRef = 1\<rparr>, AddChild 0,
          LayerRender 0]"
  by (simp add: eval_defs)

text \<open>
  Claim C4 says that when the layer object at some position is replaced by another
  object of the same name between two passes, the second pass reuses the entry and
  sets its \<^verbatim>\<open>layer\<close> to the new object.  After a pass on \<^verbatim>\<open>["Background", "Main"]\<close>, the
  layer object of \<^verbatim>\<open>Main\<close> at position 1 is replaced and the other layer is now named
  \<^verbatim>\<open>constructor\<close>: the second pass throws at position 0, and the layer renderer of
  \<^verbatim>\<open>Main\<close> still holds the old layer object.
\<close>

theorem layer_not_rebound_by_throwing_pass:
  "fst (renders [[\<lparr>getName = ''Background'', layerRef = 1\<rparr>, \<lparr>getName = ''Main'', layerRef = 2\<rparr>],
                 [\<lparr>getName = ''constructor'', layerRef = 3\<rparr>, \<lparr>getName = ''Main'', layerRef = 4\<rparr>]]
          constructor) = Throw TypeError
   \<and> js_get (prototype_keys (snd (renders
           [[\<lparr>getName = ''Background'', layerRef = 1\<rparr>, \<lparr>getName = ''Main'', layerRef = 2\<rparr>],
            [\<lparr>getName = ''constructor'', layerRef = 3\<rparr>, \<lparr>getName = ''Main'', layerRef = 4\<rparr>]]
           constructor))) (layersRenderers (snd (renders
           [[\<lparr>getName = ''Background'', layerRef = 1\<rparr>, \<lparr>getName = ''Main'', layerRef = 2\<rparr>],
            [\<lparr>getName = ''constructor'', layerRef = 3\<rparr>, \<lparr>getName = ''Main'', layerRef = 4\<rparr>]]
           constructor))) ''Main'' = Renderer 1
   \<and> layer (heap (snd (renders
           [[\<lparr>getName = ''Background'', layerRef = 1\<rparr>, \<lparr>getName = ''Main'', layerRef = 2\<rparr>],
            [\<lparr>getName = ''constructor'', layerRef = 3\<rparr>, \<lparr>getName = ''Main'', layerRef = 4\<rparr>]]
           constructor)) 1) = \<lparr>getName = ''Main'', layerRef = 2\<rparr>"
  by (simp add: eval_defs)

text \<open>
  Claim C6 says that at the end of every \<^verbatim>\<open>render()\<close> the flag \<^verbatim>\<open>wasUsed\<close> of every
  entry of the mapping is false.  On a new \<^verbatim>\<open>InstancesRenderer\<close> and the layout
  \<^verbatim>\<open>["Main", "constructor"]\<close>, \<^verbatim>\<open>render()\<close> creates and marks the entry of \<^verbatim>\<open>Main\<close>,
  then throws: the call ends with the entry in the mapping and its flag true.
\<close>

theorem wasUsed_left_set_by_throwing_pass:
  "fst (render [\<lparr>getName = ''Main'', layerRef = 1\<rparr>, \<lparr>getName = ''constructor'', layerRef = 2\<rparr>]
          constructor) = Throw TypeError
   \<and> layersRenderers (snd (render
          [\<lparr>getName = ''Main'', layerRef = 1\<rparr>, \<lparr>getName = ''constructor'', layerRef = 2\<rparr>]
          constructor)) = [(''Main'', 0)]
   \<and> wasUsed (heap (snd (render
          [\<lparr>getName = ''Main'', layerRef = 1\<rparr>, \<lparr>getName = ''constructor'', layerRef = 2\<rparr>]
          constructor)) 0) = True"
  by (simp add: eval_defs)

end
